theory Spec2Isabelle
  imports Main "HOL-Library.Multiset" "HOL-Library.Sublist"
begin

section \<open>Jobs, results and channels\<close>

text \<open>
  The worker-pool file declares two plain structs. Go's \<open>int\<close> is modelled as \<open>int\<close>:
  the identifiers of the finite pools stay below 11, and no statement below depends on the
  numeric value of an identifier of the unbounded sender. A Go \<open>error\<close> is \<open>nil\<close> or a
  message, so \<open>Error\<close> is a \<open>string option\<close>; a struct literal that leaves a field out
  gives it its zero value (\<open>""\<close> for \<open>Output\<close>, \<open>nil\<close> for \<open>Error\<close>).
\<close>

record Job =
  ID :: int
  Data :: string

record Result =
  Job :: Job
  Output :: string
  Error :: "string option"

text \<open>\<open>fmt.Sprintf("%d", n)\<close>: the decimal digits of an integer.\<close>

definition digit_char :: "nat \<Rightarrow> char" where
  "digit_char d = char_of (48 + d)"

function show_nat :: "nat \<Rightarrow> string" where
  "show_nat n = (if n < 10 then [digit_char n] else show_nat (n div 10) @ [digit_char (n mod 10)])"
  by pat_completeness auto
termination
  by (relation "measure id") auto

definition itoa :: "int \<Rightarrow> string" where
  "itoa i = (if i < 0 then CHR ''-'' # show_nat (nat (- i)) else show_nat (nat i))"

text \<open>
  A buffered channel \<open>make(chan T, n)\<close>: the queued values, the capacity and the closed
  flag. Every channel of the file is made with a positive capacity. A send needs room; a
  receive takes the oldest value, and on an empty channel it blocks unless the channel is
  closed, in which case it returns at once with \<open>ok = false\<close>.
\<close>

record 'a chan =
  buf :: "'a list"
  cap :: nat
  closed :: bool

definition make_chan :: "nat \<Rightarrow> 'a chan" where
  "make_chan n = \<lparr>buf = [], cap = n, closed = False\<rparr>"

definition can_send :: "'a chan \<Rightarrow> bool" where
  "can_send c = (length (buf c) < cap c)"

definition send :: "'a \<Rightarrow> 'a chan \<Rightarrow> 'a chan" where
  "send x c = c\<lparr>buf := buf c @ [x]\<rparr>"

definition close_chan :: "'a chan \<Rightarrow> 'a chan" where
  "close_chan c = c\<lparr>closed := True\<rparr>"

text \<open>
  The outcome of \<open>v, ok := <-c\<close>: \<open>None\<close> when the receive blocks, otherwise the pair of
  the received value (\<open>None\<close> for \<open>ok = false\<close>) and the channel afterwards.
\<close>

definition recv :: "'a chan \<Rightarrow> ('a option \<times> 'a chan) option" where
  "recv c =
     (case buf c of
        x # xs \<Rightarrow> Some (Some x, c\<lparr>buf := xs\<rparr>)
      | [] \<Rightarrow> if closed c then Some (None, c) else None)"

text \<open>
  \<open>select { case c <- x: default: }\<close>: a send that is dropped when the channel is full.
\<close>

definition try_send :: "'a \<Rightarrow> 'a chan \<Rightarrow> 'a chan" where
  "try_send x c = (if can_send c then send x c else c)"

section \<open>The results the workers build\<close>

text \<open>The struct literals of the four worker functions, with their \<open>Sprintf\<close>/\<open>Errorf\<close> texts.\<close>

definition basicWorker_result :: "int \<Rightarrow> Job \<Rightarrow> Result" where
  "basicWorker_result wid job =
     \<lparr>Job = job, Output = ''Processed '' @ Data job @ '' by worker '' @ itoa wid, Error = None\<rparr>"

text \<open>\<open>r\<close> is the value of \<open>rand.Intn(10)\<close>.\<close>

definition errorProneWorker_result :: "int \<Rightarrow> Job \<Rightarrow> int \<Rightarrow> Result" where
  "errorProneWorker_result wid job r =
     (if r < 3
      then \<lparr>Job = job, Output = [], Error = Some (''worker '' @ itoa wid @ '': random failure'')\<rparr>
      else \<lparr>Job = job, Output = ''Successfully processed by worker '' @ itoa wid, Error = None\<rparr>)"

definition contextWorker_cancelled :: "int \<Rightarrow> Job \<Rightarrow> Result" where
  "contextWorker_cancelled wid job =
     \<lparr>Job = job, Output = [], Error = Some (''worker '' @ itoa wid @ '': context cancelled'')\<rparr>"

definition contextWorker_completed :: "int \<Rightarrow> Job \<Rightarrow> Result" where
  "contextWorker_completed wid job =
     \<lparr>Job = job, Output = ''Completed by worker '' @ itoa wid, Error = None\<rparr>"

definition rateLimitedWorker_result :: "int \<Rightarrow> Job \<Rightarrow> Result" where
  "rateLimitedWorker_result wid job =
     \<lparr>Job = job, Output = ''Rate-limited processing by worker '' @ itoa wid, Error = None\<rparr>"

text \<open>
  A Go string has no "absent" value, so an output is present when it is not the zero value
  \<open>""\<close>; an error is present when it is not \<open>nil\<close>.
\<close>

definition has_output :: "Result \<Rightarrow> bool" where
  "has_output r = (Output r \<noteq> [])"

definition has_error :: "Result \<Rightarrow> bool" where
  "has_error r = (Error r \<noteq> None)"

definition exactly_one :: "Result \<Rightarrow> bool" where
  "exactly_one r = (has_output r \<noteq> has_error r)"

section \<open>The pool with a context: \<open>workerPoolWithContext\<close>\<close>

text \<open>
  The pool runs five kinds of goroutine over two channels, a context and a wait group.
  It is modelled as an interleaving of atomic steps, one per channel operation, sleep or
  check of the context. Durations are abstracted: a \<open>time.Sleep\<close> is a step that may be
  taken at any later moment, and the deadline of the context an event \<open>Expire\<close> that
  may happen at any moment.

  The program points of the goroutines, named after what the goroutine does next.
\<close>

datatype sender_pc =
    SSelect int   \<comment> \<open>at the \<open>select\<close> of the sender, about to offer job \<open>j\<close>\<close>
  | SSleep int    \<comment> \<open>job \<open>j\<close> sent, in \<open>time.Sleep(200ms)\<close>\<close>
  | SDone         \<comment> \<open>returned; the deferred \<open>close(jobs)\<close> has run\<close>

datatype worker_pc =
    WSelect           \<comment> \<open>at the \<open>select\<close> of \<open>contextWorker\<close>\<close>
  | WCheck Job        \<comment> \<open>job received, about to test \<open>ctx.Err() != nil\<close>\<close>
  | WWork Job         \<comment> \<open>in the simulated work, \<open>time.Sleep(800ms)\<close>\<close>
  | WSendOk Job       \<comment> \<open>about to send the success result\<close>
  | WSendCancel Job   \<comment> \<open>about to send the cancellation result\<close>
  | WDone             \<comment> \<open>returned; the deferred \<open>wg.Done()\<close> has run\<close>

datatype collector_pc = CSelect | CDone

datatype main_pc =
    MWaitCtx   \<comment> \<open>at \<open><-ctx.Done()\<close>\<close>
  | MWaitWg    \<comment> \<open>at \<open>wg.Wait()\<close>\<close>
  | MDone      \<comment> \<open>\<open>wg.Wait()\<close> has returned\<close>

text \<open>
  \<open>sent\<close> and \<open>emitted\<close> are history variables: every job the sender has put on the
  channel and every result a worker has put on the channel, in order. \<open>printed\<close> is what
  the collector has printed.
\<close>

record cstate =
  done_ctx :: bool
  jobs :: "Job chan"
  results :: "Result chan"
  wg :: nat
  disp :: sender_pc
  workers :: "worker_pc list"
  coll :: collector_pc
  coord :: main_pc
  sent :: "Job list"
  emitted :: "Result list"
  printed :: "Result list"

text \<open>
  A \<open>select\<close> with two ready cases takes either; the label of a step says which case
  fires: \<open>Comm\<close> the channel operation, \<open>Stop\<close> the case \<open><-ctx.Done()\<close>. Steps that
  are no \<open>select\<close> are labelled \<open>Comm\<close>.
\<close>

datatype choice = Comm | Stop

datatype event =
    Expire             \<comment> \<open>the deadline of \<open>context.WithTimeout\<close> passes\<close>
  | Disp choice        \<comment> \<open>a step of the job sender\<close>
  | Work nat choice    \<comment> \<open>a step of worker \<open>i\<close> (worker id \<open>i + 1\<close>)\<close>
  | Coll choice        \<comment> \<open>a step of the result collector\<close>
  | Coord              \<comment> \<open>a step of the function \<open>workerPoolWithContext\<close> itself\<close>

definition urgent_task :: "int \<Rightarrow> Job" where
  "urgent_task j = \<lparr>ID = j, Data = ''urgent-task-'' @ itoa j\<rparr>"

text \<open>The sender goroutine (source lines 208 to 220).\<close>

fun sender_step :: "choice \<Rightarrow> cstate \<Rightarrow> cstate option" where
  "sender_step c s =
     (case (disp s, c) of
        (SSelect j, Comm) \<Rightarrow>
          if can_send (jobs s)
          then Some (s\<lparr>jobs := send (urgent_task j) (jobs s), disp := SSleep j,
                       sent := sent s @ [urgent_task j]\<rparr>)
          else None
      | (SSelect j, Stop) \<Rightarrow>
          if done_ctx s then Some (s\<lparr>jobs := close_chan (jobs s), disp := SDone\<rparr>) else None
      | (SSleep j, Comm) \<Rightarrow> Some (s\<lparr>disp := SSelect (j + 1)\<rparr>)
      | _ \<Rightarrow> None)"

text \<open>
  \<open>contextWorker\<close> (source lines 247 to 280) for the worker at index \<open>i\<close>, whose \<open>id\<close>
  is \<open>i + 1\<close>. Returning runs the deferred \<open>wg.Done()\<close>.
\<close>

definition worker_exit :: "nat \<Rightarrow> cstate \<Rightarrow> cstate" where
  "worker_exit i s = s\<lparr>workers := (workers s)[i := WDone], wg := wg s - 1\<rparr>"

definition contextWorker :: "nat \<Rightarrow> choice \<Rightarrow> cstate \<Rightarrow> cstate option" where
  "contextWorker i c s =
     (if i < length (workers s) then
        (case (workers s ! i, c) of
           (WSelect, Comm) \<Rightarrow>
             (case recv (jobs s) of
                None \<Rightarrow> None
              | Some (None, q) \<Rightarrow> Some (worker_exit i s)
              | Some (Some job, q) \<Rightarrow>
                  Some (s\<lparr>jobs := q, workers := (workers s)[i := WCheck job]\<rparr>))
         | (WSelect, Stop) \<Rightarrow> if done_ctx s then Some (worker_exit i s) else None
         | (WCheck job, Comm) \<Rightarrow>
             Some (s\<lparr>workers := (workers s)[i := (if done_ctx s then WSendCancel job else WWork job)]\<rparr>)
         | (WWork job, Comm) \<Rightarrow> Some (s\<lparr>workers := (workers s)[i := WSendOk job]\<rparr>)
         | (WSendOk job, Comm) \<Rightarrow>
             if can_send (results s)
             then Some (s\<lparr>results := send (contextWorker_completed (int i + 1) job) (results s),
                          emitted := emitted s @ [contextWorker_completed (int i + 1) job],
                          workers := (workers s)[i := WSelect]\<rparr>)
             else None
         | (WSendCancel job, Comm) \<Rightarrow>
             if can_send (results s)
             then Some (worker_exit i
                          (s\<lparr>results := send (contextWorker_cancelled (int i + 1) job) (results s),
                             emitted := emitted s @ [contextWorker_cancelled (int i + 1) job]\<rparr>))
             else None
         | _ \<Rightarrow> None)
      else None)"

text \<open>
  The collector goroutine (source lines 223 to 237). Nothing closes \<open>results\<close>; a receive
  from a closed channel would give the zero value.
\<close>

definition zero_result :: Result where
  "zero_result = \<lparr>Job = \<lparr>ID = 0, Data = []\<rparr>, Output = [], Error = None\<rparr>"

fun collector_step :: "choice \<Rightarrow> cstate \<Rightarrow> cstate option" where
  "collector_step c s =
     (case (coll s, c) of
        (CSelect, Comm) \<Rightarrow>
          (case recv (results s) of
             None \<Rightarrow> None
           | Some (None, q) \<Rightarrow> Some (s\<lparr>printed := printed s @ [zero_result]\<rparr>)
           | Some (Some r, q) \<Rightarrow> Some (s\<lparr>results := q, printed := printed s @ [r]\<rparr>))
      | (CSelect, Stop) \<Rightarrow> if done_ctx s then Some (s\<lparr>coll := CDone\<rparr>) else None
      | _ \<Rightarrow> None)"

text \<open>The body of \<open>workerPoolWithContext\<close> after the goroutines are started (lines 239 to 244).\<close>

fun workerPoolWithContext :: "cstate \<Rightarrow> cstate option" where
  "workerPoolWithContext s =
     (case coord s of
        MWaitCtx \<Rightarrow> if done_ctx s then Some (s\<lparr>coord := MWaitWg\<rparr>) else None
      | MWaitWg \<Rightarrow> if wg s = 0 then Some (s\<lparr>coord := MDone\<rparr>) else None
      | MDone \<Rightarrow> None)"

fun fire :: "event \<Rightarrow> cstate \<Rightarrow> cstate option" where
  "fire Expire s = (if done_ctx s then None else Some (s\<lparr>done_ctx := True\<rparr>))"
| "fire (Disp c) s = sender_step c s"
| "fire (Work i c) s = contextWorker i c s"
| "fire (Coll c) s = collector_step c s"
| "fire Coord s = workerPoolWithContext s"

text \<open>Running a schedule: \<open>None\<close> when one of its events is not enabled.\<close>

fun exec :: "event list \<Rightarrow> cstate \<Rightarrow> cstate option" where
  "exec [] s = Some s"
| "exec (e # es) s = (case fire e s of None \<Rightarrow> None | Some s' \<Rightarrow> exec es s')"

text \<open>
  The state in which the function has started its goroutines: \<open>n\<close> workers (each after
  \<open>wg.Add(1)\<close>), the sender at \<open>j = 1\<close>, nothing sent yet. The function makes both
  channels with capacity 20 and starts two workers.
\<close>

definition pool_init :: "nat \<Rightarrow> nat \<Rightarrow> nat \<Rightarrow> cstate" where
  "pool_init n cj cr =
     \<lparr>done_ctx = False, jobs = make_chan cj, results = make_chan cr, wg = n,
      disp = SSelect 1, workers = replicate n WSelect, coll = CSelect, coord = MWaitCtx,
      sent = [], emitted = [], printed = []\<rparr>"

definition workerPoolWithContext_init :: cstate where
  "workerPoolWithContext_init = pool_init 2 20 20"

inductive reachable :: "cstate \<Rightarrow> bool" where
  reach_init: "reachable workerPoolWithContext_init"
| reach_step: "reachable s \<Longrightarrow> fire e s = Some s' \<Longrightarrow> reachable s'"

text \<open>The events of a state that are enabled, over every goroutine and both choices.\<close>

definition all_events :: "cstate \<Rightarrow> event list" where
  "all_events s =
     [Expire, Disp Comm, Disp Stop, Coll Comm, Coll Stop, Coord]
     @ concat (map (\<lambda>i. [Work i Comm, Work i Stop]) [0 ..< length (workers s)])"

definition enabled :: "cstate \<Rightarrow> event list" where
  "enabled s = filter (\<lambda>e. fire e s \<noteq> None) (all_events s)"

text \<open>
  The job a worker has received and not yet answered, and the workers that have not
  returned. \<open>reads_ctx\<close> marks the two program points at which \<open>contextWorker\<close> looks at
  the context.
\<close>

fun holding :: "worker_pc \<Rightarrow> Job multiset" where
  "holding WSelect = {#}"
| "holding (WCheck job) = {#job#}"
| "holding (WWork job) = {#job#}"
| "holding (WSendOk job) = {#job#}"
| "holding (WSendCancel job) = {#job#}"
| "holding WDone = {#}"

definition held :: "worker_pc list \<Rightarrow> Job multiset" where
  "held ws = sum_list (map holding ws)"

definition active :: "worker_pc list \<Rightarrow> nat" where
  "active ws = length (filter (\<lambda>w. w \<noteq> WDone) ws)"


text \<open>Two invariants of the pool: where the dispatched jobs are, and what the wait group counts.\<close>

definition conserved :: "cstate \<Rightarrow> bool" where
  "conserved s =
     (mset (sent s) = mset (buf (jobs s)) + held (workers s) + mset (map Job (emitted s)))"

definition wg_counts :: "cstate \<Rightarrow> bool" where
  "wg_counts s =
     (wg s = active (workers s) \<and> length (workers s) = 2 \<and> (coord s = MDone \<longrightarrow> wg s = 0))"

text \<open>
  Three schedules of the pool. In \<open>full_schedule\<close> worker 1 answers twenty jobs while the
  collector is not scheduled, both workers take one more job each, and then the deadline
  passes. In \<open>leak_schedule\<close> the deadline passes at once and both workers return. In
  \<open>drop_schedule\<close> one job is sent before that.
\<close>

definition full_schedule :: "event list" where
  "full_schedule =
     concat (replicate 20 [Disp Comm, Disp Comm, Work 0 Comm, Work 0 Comm, Work 0 Comm, Work 0 Comm])
     @ [Disp Comm, Disp Comm, Work 0 Comm, Work 0 Comm, Work 0 Comm]
     @ [Disp Comm, Disp Comm, Work 1 Comm, Work 1 Comm, Work 1 Comm]
     @ [Expire, Disp Stop, Coll Stop, Coord]"

definition leak_schedule :: "event list" where
  "leak_schedule = [Expire, Work 0 Stop, Work 1 Stop, Coord, Coord]"

definition drop_schedule :: "event list" where
  "drop_schedule =
     [Disp Comm, Expire, Work 0 Stop, Work 1 Stop, Disp Comm, Disp Stop, Coll Stop, Coord, Coord]"

section \<open>The finite pools: \<open>basicWorkerPool\<close> and \<open>workerPoolWithErrors\<close>\<close>

text \<open>
  The two functions have the same shape and differ in their constants and in the worker
  they start: the function sends \<open>njobs\<close> jobs, closes the channel and then receives
  \<open>njobs\<close> results; each worker ranges over the job channel.
\<close>

datatype worker_kind = Basic | ErrorProne

record pool_cfg =
  njobs :: nat
  nworkers :: nat
  jobs_cap :: nat
  results_cap :: nat
  kind :: worker_kind

definition basicWorkerPool_cfg :: pool_cfg where
  "basicWorkerPool_cfg = \<lparr>njobs = 10, nworkers = 3, jobs_cap = 100, results_cap = 100, kind = Basic\<rparr>"

definition workerPoolWithErrors_cfg :: pool_cfg where
  "workerPoolWithErrors_cfg = \<lparr>njobs = 8, nworkers = 2, jobs_cap = 50, results_cap = 50, kind = ErrorProne\<rparr>"

datatype fmain_pc =
    FSend nat      \<comment> \<open>in the sending loop, at the test \<open>j <= njobs\<close>\<close>
  | FCollect nat   \<comment> \<open>\<open>jobs\<close> closed; in the collecting loop, at the test \<open>r <= njobs\<close>\<close>
  | FDone

datatype fworker_pc =
    FRecv              \<comment> \<open>at \<open>for job := range jobs\<close>\<close>
  | FWork Job          \<comment> \<open>in \<open>time.Sleep\<close>\<close>
  | FSendRes Result    \<comment> \<open>about to send the result it has built\<close>
  | FWDone             \<comment> \<open>the range loop has ended\<close>

text \<open>
  \<open>successCount\<close> and \<open>errorCount\<close> are the counters of \<open>workerPoolWithErrors\<close>; in
  \<open>basicWorkerPool\<close> they count the two kinds of line the loop prints. \<open>fsent\<close>,
  \<open>femitted\<close> and \<open>fcollected\<close> are history variables.
\<close>

record fstate =
  fjobs :: "Job chan"
  fresults :: "Result chan"
  fworkers :: "fworker_pc list"
  fmain :: fmain_pc
  successCount :: nat
  errorCount :: nat
  fsent :: "Job list"
  femitted :: "Result list"
  fcollected :: "Result list"

text \<open>A worker event carries the value \<open>rand.Intn(10)\<close> returns if the step draws one.\<close>

datatype fevent = FMain | FWorker nat int

definition pool_job :: "worker_kind \<Rightarrow> nat \<Rightarrow> Job" where
  "pool_job k j =
     \<lparr>ID = int j, Data = (case k of Basic \<Rightarrow> ''task-'' | ErrorProne \<Rightarrow> ''data-'') @ itoa (int j)\<rparr>"

definition pool_result :: "worker_kind \<Rightarrow> int \<Rightarrow> Job \<Rightarrow> int \<Rightarrow> Result" where
  "pool_result k wid job r =
     (case k of Basic \<Rightarrow> basicWorker_result wid job | ErrorProne \<Rightarrow> errorProneWorker_result wid job r)"

text \<open>
  The body of \<open>basicWorkerPool\<close> (source lines 104 to 118) and of
  \<open>workerPoolWithErrors\<close> (lines 147 to 166) after the workers are started: the sending
  loop, \<open>close(jobs)\<close>, and the collecting loop with its test \<open>result.Error != nil\<close>.
\<close>

definition fmain_step :: "pool_cfg \<Rightarrow> fstate \<Rightarrow> fstate option" where
  "fmain_step cfg s =
     (case fmain s of
        FSend j \<Rightarrow>
          if j \<le> njobs cfg then
            (if can_send (fjobs s)
             then Some (s\<lparr>fjobs := send (pool_job (kind cfg) j) (fjobs s), fmain := FSend (j + 1),
                          fsent := fsent s @ [pool_job (kind cfg) j]\<rparr>)
             else None)
          else Some (s\<lparr>fjobs := close_chan (fjobs s), fmain := FCollect 1\<rparr>)
      | FCollect r \<Rightarrow>
          if r \<le> njobs cfg then
            (case recv (fresults s) of
               None \<Rightarrow> None
             | Some (v, q) \<Rightarrow>
                 (let res = (case v of None \<Rightarrow> zero_result | Some x \<Rightarrow> x);
                      s' = s\<lparr>fresults := q, fmain := FCollect (r + 1), fcollected := fcollected s @ [res]\<rparr>
                  in if Error res \<noteq> None
                     then Some (s'\<lparr>errorCount := errorCount s + 1\<rparr>)
                     else Some (s'\<lparr>successCount := successCount s + 1\<rparr>)))
          else Some (s\<lparr>fmain := FDone\<rparr>)
      | FDone \<Rightarrow> None)"

text \<open>
  \<open>basicWorker\<close> (lines 121 to 133) and \<open>errorProneWorker\<close> (lines 171 to 188) for the
  worker at index \<open>i\<close>, whose \<open>id\<close> is \<open>i + 1\<close>: receive a job, sleep, build the result
  (for \<open>errorProneWorker\<close> from the draw \<open>r\<close>), send it.
\<close>

definition fworker_step :: "pool_cfg \<Rightarrow> nat \<Rightarrow> int \<Rightarrow> fstate \<Rightarrow> fstate option" where
  "fworker_step cfg i r s =
     (if i < length (fworkers s) \<and> 0 \<le> r \<and> r < 10 then
        (case fworkers s ! i of
           FRecv \<Rightarrow>
             (case recv (fjobs s) of
                None \<Rightarrow> None
              | Some (None, q) \<Rightarrow> Some (s\<lparr>fworkers := (fworkers s)[i := FWDone]\<rparr>)
              | Some (Some job, q) \<Rightarrow> Some (s\<lparr>fjobs := q, fworkers := (fworkers s)[i := FWork job]\<rparr>))
         | FWork job \<Rightarrow>
             Some (s\<lparr>fworkers := (fworkers s)[i := FSendRes (pool_result (kind cfg) (int i + 1) job r)]\<rparr>)
         | FSendRes res \<Rightarrow>
             if can_send (fresults s)
             then Some (s\<lparr>fresults := send res (fresults s), femitted := femitted s @ [res],
                          fworkers := (fworkers s)[i := FRecv]\<rparr>)
             else None
         | FWDone \<Rightarrow> None)
      else None)"

fun ffire :: "pool_cfg \<Rightarrow> fevent \<Rightarrow> fstate \<Rightarrow> fstate option" where
  "ffire cfg FMain s = fmain_step cfg s"
| "ffire cfg (FWorker i r) s = fworker_step cfg i r s"

fun fexec :: "pool_cfg \<Rightarrow> fevent list \<Rightarrow> fstate \<Rightarrow> fstate option" where
  "fexec cfg [] s = Some s"
| "fexec cfg (e # es) s = (case ffire cfg e s of None \<Rightarrow> None | Some s' \<Rightarrow> fexec cfg es s')"

definition finit :: "pool_cfg \<Rightarrow> fstate" where
  "finit cfg =
     \<lparr>fjobs = make_chan (jobs_cap cfg), fresults = make_chan (results_cap cfg),
      fworkers = replicate (nworkers cfg) FRecv, fmain = FSend 1,
      successCount = 0, errorCount = 0, fsent = [], femitted = [], fcollected = []\<rparr>"

inductive freachable :: "pool_cfg \<Rightarrow> fstate \<Rightarrow> bool" for cfg where
  freach_init: "freachable cfg (finit cfg)"
| freach_step: "freachable cfg s \<Longrightarrow> ffire cfg e s = Some s' \<Longrightarrow> freachable cfg s'"

text \<open>
  The statistics of a run. The code has no separate cancellation count; a cancelled
  result is one whose error is the message of \<open>contextWorker\<close>.
\<close>

definition is_cancellation :: "Result \<Rightarrow> bool" where
  "is_cancellation r =
     (case Error r of None \<Rightarrow> False | Some m \<Rightarrow> suffix '': context cancelled'' m)"

definition cancelled_count :: "Result list \<Rightarrow> nat" where
  "cancelled_count rs = length (filter is_cancellation rs)"

text \<open>
  A bound on the number of steps a state can still take: the stage of every job (five
  steps before it is sent, four while queued, three and two while a worker holds it, one
  in the result channel), one for every worker that has not returned, and the iterations
  left to the two loops of the function itself.
\<close>

fun fworker_weight :: "fworker_pc \<Rightarrow> nat" where
  "fworker_weight FRecv = 1"
| "fworker_weight (FWork job) = 4"
| "fworker_weight (FSendRes res) = 3"
| "fworker_weight FWDone = 0"

fun fmain_weight :: "nat \<Rightarrow> fmain_pc \<Rightarrow> nat" where
  "fmain_weight n (FSend j) = 5 * (n + 1 - j) + n + 2"
| "fmain_weight n (FCollect r) = Suc (n + 1 - r)"
| "fmain_weight n FDone = 0"

definition steps_left :: "pool_cfg \<Rightarrow> fstate \<Rightarrow> nat" where
  "steps_left cfg s =
     fmain_weight (njobs cfg) (fmain s) + 4 * length (buf (fjobs s))
     + sum_list (map fworker_weight (fworkers s)) + length (buf (fresults s))"

fun fholds :: "fworker_pc \<Rightarrow> nat" where
  "fholds FRecv = 0"
| "fholds (FWork job) = 1"
| "fholds (FSendRes res) = 1"
| "fholds FWDone = 0"

text \<open>
  The invariants of a finite pool: the shape of the state, where the jobs sent are, what
  the two counters count, that no result is a cancellation, what the function has done at
  each of its program points, and that a worker only returns once the job channel is
  closed and empty. \<open>results_accounted\<close> says that the results sent are the results
  collected followed by the results queued, and that every job sent is queued, held by a
  worker or answered by a result.
\<close>

definition shape_ok :: "pool_cfg \<Rightarrow> fstate \<Rightarrow> bool" where
  "shape_ok cfg s =
     (length (fworkers s) = nworkers cfg \<and> cap (fjobs s) = jobs_cap cfg
      \<and> cap (fresults s) = results_cap cfg \<and> \<not> closed (fresults s))"

definition jobs_accounted :: "fstate \<Rightarrow> bool" where
  "jobs_accounted s =
     (length (fsent s) =
        length (buf (fjobs s)) + sum_list (map fholds (fworkers s))
        + length (buf (fresults s)) + length (fcollected s))"

definition tally_ok :: "fstate \<Rightarrow> bool" where
  "tally_ok s =
     (successCount s = length (filter (\<lambda>r. Error r = None) (fcollected s))
      \<and> errorCount s = length (filter (\<lambda>r. Error r \<noteq> None) (fcollected s)))"

fun fholding :: "fworker_pc \<Rightarrow> Job multiset" where
  "fholding FRecv = {#}"
| "fholding (FWork job) = {#job#}"
| "fholding (FSendRes res) = {#Job res#}"
| "fholding FWDone = {#}"

definition results_accounted :: "fstate \<Rightarrow> bool" where
  "results_accounted s =
     (femitted s = fcollected s @ buf (fresults s)
      \<and> mset (fsent s) =
          mset (buf (fjobs s)) + sum_list (map fholding (fworkers s))
          + mset (map Job (femitted s)))"

fun not_cancelling :: "fworker_pc \<Rightarrow> bool" where
  "not_cancelling (FSendRes res) = (\<not> is_cancellation res)"
| "not_cancelling _ = True"

definition no_cancellations :: "fstate \<Rightarrow> bool" where
  "no_cancellations s =
     (cancelled_count (fcollected s) = 0 \<and> cancelled_count (buf (fresults s)) = 0
      \<and> list_all not_cancelling (fworkers s))"

definition main_ok :: "pool_cfg \<Rightarrow> fstate \<Rightarrow> bool" where
  "main_ok cfg s =
     (case fmain s of
        FSend j \<Rightarrow> 1 \<le> j \<and> j \<le> njobs cfg + 1 \<and> length (fsent s) = j - 1
                   \<and> \<not> closed (fjobs s) \<and> fcollected s = []
      | FCollect r \<Rightarrow> 1 \<le> r \<and> r \<le> njobs cfg + 1 \<and> length (fsent s) = njobs cfg
                   \<and> closed (fjobs s) \<and> length (fcollected s) = r - 1
      | FDone \<Rightarrow> length (fsent s) = njobs cfg \<and> length (fcollected s) = njobs cfg)"

definition done_ok :: "fstate \<Rightarrow> bool" where
  "done_ok s = (FWDone \<in> set (fworkers s) \<longrightarrow> closed (fjobs s) \<and> buf (fjobs s) = [])"

definition finv :: "pool_cfg \<Rightarrow> fstate \<Rightarrow> bool" where
  "finv cfg s =
     (shape_ok cfg s \<and> jobs_accounted s \<and> results_accounted s \<and> tally_ok s
      \<and> no_cancellations s \<and> main_ok cfg s \<and> done_ok s)"

text \<open>
  What the proof of termination needs of the constants: the job channel can hold every
  job, so the function never waits in its sending loop, and there is a worker and room
  for a result. Both pools of the code are such.
\<close>

definition fits :: "pool_cfg \<Rightarrow> bool" where
  "fits cfg = (njobs cfg \<le> jobs_cap cfg \<and> 0 < results_cap cfg \<and> 0 < nworkers cfg)"

text \<open>A result a worker has built and not yet sent is well formed, as are those sent.\<close>

fun pending_ok :: "fworker_pc \<Rightarrow> bool" where
  "pending_ok (FSendRes res) = exactly_one res"
| "pending_ok _ = True"

definition fresults_ok :: "fstate \<Rightarrow> bool" where
  "fresults_ok s = (list_all exactly_one (femitted s) \<and> list_all pending_ok (fworkers s))"

text \<open>
  A complete run of \<open>workerPoolWithErrors\<close>: the function sends its eight jobs and closes
  the channel, each worker answers four jobs (the draws 1, 2 and 0 are failures), both
  workers return, and the function receives the eight results.
\<close>

definition errors_schedule :: "fevent list" where
  "errors_schedule =
     replicate 9 FMain
     @ concat (map (\<lambda>r. replicate 3 (FWorker 0 r)) [5, 1, 7, 3])
     @ concat (map (\<lambda>r. replicate 3 (FWorker 1 r)) [2, 9, 0, 4])
     @ [FWorker 0 0, FWorker 1 0]
     @ replicate 9 FMain"

text \<open>The events of a finite pool that are enabled, with 0 for the random draw.\<close>

definition fenabled :: "pool_cfg \<Rightarrow> fstate \<Rightarrow> fevent list" where
  "fenabled cfg s =
     filter (\<lambda>e. ffire cfg e s \<noteq> None)
       (FMain # map (\<lambda>i. FWorker i 0) [0 ..< length (fworkers s)])"

section \<open>The rate-limited pool: \<open>rateLimitedWorkerPool\<close>\<close>

text \<open>
  The limiter is a channel of capacity 2. Its refill goroutine waits for a tick of the
  one-second ticker and then makes two sends that are dropped when the channel is full.
  A tick is an event; \<open>ticks\<close> counts the ticks received, \<open>refilled\<close> the permits the
  refill has put in, \<open>started\<close> the jobs for which a worker has taken a permit.
\<close>

datatype refill_pc =
    RTick    \<comment> \<open>at \<open><-ticker.C\<close>\<close>
  | RFill1   \<comment> \<open>at the first inner \<open>select\<close>\<close>
  | RFill2   \<comment> \<open>at the second inner \<open>select\<close>\<close>

datatype rworker_pc =
    RRecv           \<comment> \<open>at \<open>for job := range jobs\<close>\<close>
  | RToken Job      \<comment> \<open>at \<open><-rateLimiter\<close>\<close>
  | RWork Job       \<comment> \<open>in \<open>time.Sleep(100ms)\<close>\<close>
  | RSendRes Job    \<comment> \<open>about to send the result\<close>
  | RWDone

record rstate =
  rjobs :: "Job chan"
  rresults :: "Result chan"
  limiter :: "unit chan"
  refill :: refill_pc
  rworkers :: "rworker_pc list"
  rmain :: fmain_pc
  ticks :: nat
  refilled :: nat
  started :: "Job list"
  remitted :: "Result list"
  rcollected :: "Result list"

datatype revent = RRefill | RWorker nat | RMain

definition rate_job :: "nat \<Rightarrow> Job" where
  "rate_job j = \<lparr>ID = int j, Data = ''rate-limited-task-'' @ itoa (int j)\<rparr>"

text \<open>The refill goroutine (source lines 291 to 308). It has no way out of its loop.\<close>

definition refill_step :: "rstate \<Rightarrow> rstate option" where
  "refill_step s =
     (case refill s of
        RTick \<Rightarrow> Some (s\<lparr>refill := RFill1, ticks := ticks s + 1\<rparr>)
      | RFill1 \<Rightarrow>
          Some (s\<lparr>limiter := try_send () (limiter s), refill := RFill2,
                  refilled := refilled s + (if can_send (limiter s) then 1 else 0)\<rparr>)
      | RFill2 \<Rightarrow>
          Some (s\<lparr>limiter := try_send () (limiter s), refill := RTick,
                  refilled := refilled s + (if can_send (limiter s) then 1 else 0)\<rparr>))"

text \<open>\<open>rateLimitedWorker\<close> (source lines 331 to 345).\<close>

definition rateLimitedWorker :: "nat \<Rightarrow> rstate \<Rightarrow> rstate option" where
  "rateLimitedWorker i s =
     (if i < length (rworkers s) then
        (case rworkers s ! i of
           RRecv \<Rightarrow>
             (case recv (rjobs s) of
                None \<Rightarrow> None
              | Some (None, q) \<Rightarrow> Some (s\<lparr>rworkers := (rworkers s)[i := RWDone]\<rparr>)
              | Some (Some job, q) \<Rightarrow> Some (s\<lparr>rjobs := q, rworkers := (rworkers s)[i := RToken job]\<rparr>))
         | RToken job \<Rightarrow>
             (case recv (limiter s) of
                None \<Rightarrow> None
              | Some (v, q) \<Rightarrow>
                  Some (s\<lparr>limiter := q, started := started s @ [job],
                          rworkers := (rworkers s)[i := RWork job]\<rparr>))
         | RWork job \<Rightarrow> Some (s\<lparr>rworkers := (rworkers s)[i := RSendRes job]\<rparr>)
         | RSendRes job \<Rightarrow>
             if can_send (rresults s)
             then Some (s\<lparr>rresults := send (rateLimitedWorker_result (int i + 1) job) (rresults s),
                          remitted := remitted s @ [rateLimitedWorker_result (int i + 1) job],
                          rworkers := (rworkers s)[i := RRecv]\<rparr>)
             else None
         | RWDone \<Rightarrow> None)
      else None)"

text \<open>The body of \<open>rateLimitedWorkerPool\<close>: six jobs sent, the channel closed, six results received.\<close>

definition rateLimitedWorkerPool :: "rstate \<Rightarrow> rstate option" where
  "rateLimitedWorkerPool s =
     (case rmain s of
        FSend j \<Rightarrow>
          if j \<le> 6 then
            (if can_send (rjobs s)
             then Some (s\<lparr>rjobs := send (rate_job j) (rjobs s), rmain := FSend (j + 1)\<rparr>)
             else None)
          else Some (s\<lparr>rjobs := close_chan (rjobs s), rmain := FCollect 1\<rparr>)
      | FCollect r \<Rightarrow>
          if r \<le> 6 then
            (case recv (rresults s) of
               None \<Rightarrow> None
             | Some (v, q) \<Rightarrow>
                 Some (s\<lparr>rresults := q, rmain := FCollect (r + 1),
                         rcollected := rcollected s @ [case v of None \<Rightarrow> zero_result | Some x \<Rightarrow> x]\<rparr>))
          else Some (s\<lparr>rmain := FDone\<rparr>)
      | FDone \<Rightarrow> None)"

fun rfire :: "revent \<Rightarrow> rstate \<Rightarrow> rstate option" where
  "rfire RRefill s = refill_step s"
| "rfire (RWorker i) s = rateLimitedWorker i s"
| "rfire RMain s = rateLimitedWorkerPool s"

fun rexec :: "revent list \<Rightarrow> rstate \<Rightarrow> rstate option" where
  "rexec [] s = Some s"
| "rexec (e # es) s = (case rfire e s of None \<Rightarrow> None | Some s' \<Rightarrow> rexec es s')"

definition rateLimitedWorkerPool_init :: rstate where
  "rateLimitedWorkerPool_init =
     \<lparr>rjobs = make_chan 10, rresults = make_chan 10, limiter = make_chan 2, refill = RTick,
      rworkers = replicate 3 RRecv, rmain = FSend 1, ticks = 0, refilled = 0,
      started = [], remitted = [], rcollected = []\<rparr>"

inductive rreachable :: "rstate \<Rightarrow> bool" where
  rreach_init: "rreachable rateLimitedWorkerPool_init"
| rreach_step: "rreachable s \<Longrightarrow> rfire e s = Some s' \<Longrightarrow> rreachable s'"

text \<open>The events of a state of the rate-limited pool that are enabled.\<close>

definition renabled :: "rstate \<Rightarrow> revent list" where
  "renabled s =
     filter (\<lambda>e. rfire e s \<noteq> None)
       (RRefill # RMain # map RWorker [0 ..< length (rworkers s)])"

text \<open>A worker that has taken a permit and is processing or answering its job.\<close>

fun processing :: "rworker_pc \<Rightarrow> bool" where
  "processing (RWork job) = True"
| "processing (RSendRes job) = True"
| "processing _ = False"

definition limiter_bounded :: "rstate \<Rightarrow> bool" where
  "limiter_bounded s =
     (cap (limiter s) = 2 \<and> \<not> closed (limiter s) \<and> length (buf (limiter s)) \<le> 2
      \<and> refilled s + (case refill s of RTick \<Rightarrow> 0 | RFill1 \<Rightarrow> 2 | RFill2 \<Rightarrow> 1) \<le> 2 * ticks s
      \<and> refilled s = length (buf (limiter s)) + length (started s))"

text \<open>
  Two schedules of the rate-limited pool: two rounds of the refill goroutine with no
  worker taking a permit, and a job received by worker 1 before the first tick.
\<close>

definition refill_schedule :: "revent list" where
  "refill_schedule = replicate 6 RRefill"

definition early_schedule :: "revent list" where
  "early_schedule = [RMain, RWorker 0]"

definition answer_schedule :: "revent list" where
  "answer_schedule = [RMain, RWorker 0, RRefill, RRefill, RWorker 0, RWorker 0, RWorker 0]"

definition before_first_tick :: "rstate \<Rightarrow> bool" where
  "before_first_tick s =
     (ticks s = 0 \<longrightarrow>
        refill s = RTick \<and> buf (limiter s) = [] \<and> \<not> closed (limiter s) \<and> started s = []
        \<and> remitted s = [] \<and> buf (rresults s) = []
        \<and> list_all (\<lambda>w. \<not> processing w) (rworkers s))"

section \<open>Lists of workers\<close>

lemma sum_list_map_update:
  fixes f :: "'a \<Rightarrow> 'b::comm_monoid_add"
  shows "i < length ws \<Longrightarrow> sum_list (map f (ws[i := x])) + f (ws ! i) = sum_list (map f ws) + f x"
proof (induction ws arbitrary: i)
  case Nil
  then show ?case by simp
next
  case (Cons w ws)
  show ?case
  proof (cases i)
    case 0
    then show ?thesis by (simp add: ac_simps)
  next
    case (Suc k)
    with Cons.prems have "k < length ws" by simp
    from Cons.IH [OF this] Suc show ?thesis
      by (simp add: ac_simps)
  qed
qed

lemma held_update:
  "i < length ws \<Longrightarrow> held (ws[i := x]) + holding (ws ! i) = held ws + holding x"
  unfolding held_def by (rule sum_list_map_update)

lemma active_update:
  assumes "i < length ws"
  shows "active (ws[i := x]) + (if ws ! i \<noteq> WDone then 1 else 0)
           = active ws + (if x \<noteq> WDone then 1 else 0)"
proof -
  have eq: "active vs = sum_list (map (\<lambda>w. if w \<noteq> WDone then 1 else 0) vs)" for vs
    unfolding active_def by (induction vs) auto
  show ?thesis
    unfolding eq
    using sum_list_map_update [OF assms, of "\<lambda>w. if w \<noteq> WDone then (1::nat) else 0" x]
    by simp
qed

lemma active_zero: "active ws = 0 \<Longrightarrow> ws = replicate (length ws) WDone"
  unfolding active_def by (induction ws) (auto split: if_splits)

lemma list_all_update: "list_all P ws \<Longrightarrow> P x \<Longrightarrow> list_all P (ws[i := x])"
  by (induction ws arbitrary: i) (auto split: nat.splits)

lemma list_all_nth: "list_all P ws \<Longrightarrow> i < length ws \<Longrightarrow> P (ws ! i)"
  by (simp add: list_all_length)

lemma in_set_update: "y \<in> set (ws[i := x]) \<Longrightarrow> y = x \<or> y \<in> set ws"
  using set_update_subset_insert [of ws i x] by auto

section \<open>Well-formed results\<close>

lemma constructors_exactly_one:
  "exactly_one (basicWorker_result w job)" "exactly_one (errorProneWorker_result w job r)"
  "exactly_one (contextWorker_cancelled w job)" "exactly_one (contextWorker_completed w job)"
  "exactly_one (rateLimitedWorker_result w job)" "exactly_one (pool_result k w job r)"
  by (cases k;
      simp add: exactly_one_def has_output_def has_error_def basicWorker_result_def
        errorProneWorker_result_def contextWorker_cancelled_def contextWorker_completed_def
        rateLimitedWorker_result_def pool_result_def)+

section \<open>Invariants of the pool with a context\<close>

lemma exec_reachable: "reachable s \<Longrightarrow> exec es s = Some s' \<Longrightarrow> reachable s'"
proof (induction es arbitrary: s)
  case Nil
  then show ?case by simp
next
  case (Cons e es)
  then show ?case by (auto split: option.splits intro: reach_step)
qed

lemma init_conserved: "conserved workerPoolWithContext_init"
  by (simp add: conserved_def workerPoolWithContext_init_def pool_init_def make_chan_def
      held_def numeral_2_eq_2)

lemma conserved_step:
  assumes "conserved s" "fire e s = Some s'"
  shows "conserved s'"
proof (cases e)
  case Expire
  with assms show ?thesis by (auto simp: conserved_def split: if_splits)
next
  case (Disp c)
  with assms show ?thesis
    by (auto simp: conserved_def send_def close_chan_def
        split: if_splits sender_pc.splits choice.splits)
next
  case (Work i c)
  with assms have st: "contextWorker i c s = Some s'" by simp
  then have i: "i < length (workers s)" by (auto simp: contextWorker_def split: if_splits)
  note upd = held_update [OF i]
  show ?thesis
  proof (cases "workers s ! i")
    case WSelect
    with st i assms(1) upd [of WDone] upd [of "WCheck j" for j] show ?thesis
      by (auto simp: contextWorker_def worker_exit_def conserved_def recv_def
          split: if_splits choice.splits list.splits)
  next
    case (WCheck job)
    with st i assms(1) upd [of "WWork job"] upd [of "WSendCancel job"] show ?thesis
      by (auto simp: contextWorker_def conserved_def split: if_splits choice.splits)
  next
    case (WWork job)
    with st i assms(1) upd [of "WSendOk job"] show ?thesis
      by (auto simp: contextWorker_def conserved_def split: if_splits choice.splits)
  next
    case (WSendOk job)
    with st i assms(1) upd [of WSelect] show ?thesis
      by (auto simp: contextWorker_def conserved_def send_def contextWorker_completed_def
          split: if_splits choice.splits)
  next
    case (WSendCancel job)
    with st i assms(1) upd [of WDone] show ?thesis
      by (auto simp: contextWorker_def worker_exit_def conserved_def send_def
          contextWorker_cancelled_def split: if_splits choice.splits)
  next
    case WDone
    with st i show ?thesis by (auto simp: contextWorker_def)
  qed
next
  case (Coll c)
  with assms show ?thesis
    by (auto simp: conserved_def recv_def
        split: if_splits collector_pc.splits choice.splits list.splits)
next
  case Coord
  with assms show ?thesis by (auto simp: conserved_def split: if_splits main_pc.splits)
qed

lemma reachable_conserved: "reachable s \<Longrightarrow> conserved s"
  by (induction rule: reachable.induct) (auto intro: init_conserved conserved_step)

lemma init_wg_counts: "wg_counts workerPoolWithContext_init"
  by (simp add: wg_counts_def workerPoolWithContext_init_def pool_init_def active_def
      numeral_2_eq_2)

lemma wg_counts_step:
  assumes "wg_counts s" "fire e s = Some s'"
  shows "wg_counts s'"
proof (cases e)
  case Expire
  with assms show ?thesis by (auto simp: wg_counts_def split: if_splits)
next
  case (Disp c)
  with assms show ?thesis
    by (auto simp: wg_counts_def split: if_splits sender_pc.splits choice.splits)
next
  case (Work i c)
  with assms have st: "contextWorker i c s = Some s'" by simp
  then have i: "i < length (workers s)" by (auto simp: contextWorker_def split: if_splits)
  note upd = active_update [OF i]
  show ?thesis
  proof (cases "workers s ! i")
    case WSelect
    with st i assms(1) upd [of WDone] upd [of "WCheck j" for j] show ?thesis
      by (auto simp: contextWorker_def worker_exit_def wg_counts_def recv_def
          split: if_splits choice.splits list.splits)
  next
    case (WCheck job)
    with st i assms(1) upd [of "WWork job"] upd [of "WSendCancel job"] show ?thesis
      by (auto simp: contextWorker_def wg_counts_def split: if_splits choice.splits)
  next
    case (WWork job)
    with st i assms(1) upd [of "WSendOk job"] show ?thesis
      by (auto simp: contextWorker_def wg_counts_def split: if_splits choice.splits)
  next
    case (WSendOk job)
    with st i assms(1) upd [of WSelect] show ?thesis
      by (auto simp: contextWorker_def wg_counts_def split: if_splits choice.splits)
  next
    case (WSendCancel job)
    with st i assms(1) upd [of WDone] show ?thesis
      by (auto simp: contextWorker_def worker_exit_def wg_counts_def
          split: if_splits choice.splits)
  next
    case WDone
    with st i show ?thesis by (auto simp: contextWorker_def)
  qed
next
  case (Coll c)
  with assms show ?thesis
    by (auto simp: wg_counts_def
        split: if_splits collector_pc.splits choice.splits option.splits prod.splits)
next
  case Coord
  with assms show ?thesis by (auto simp: wg_counts_def split: if_splits main_pc.splits)
qed

lemma reachable_wg_counts: "reachable s \<Longrightarrow> wg_counts s"
  by (induction rule: reachable.induct) (auto intro: init_wg_counts wg_counts_step)

lemma emitted_step:
  assumes "list_all exactly_one (emitted s)" "fire e s = Some s'"
  shows "list_all exactly_one (emitted s')"
proof (cases e)
  case (Work i c)
  with assms(2) have st: "contextWorker i c s = Some s'" by simp
  then have "i < length (workers s)" by (auto simp: contextWorker_def split: if_splits)
  with st assms(1) show ?thesis
    by (cases "workers s ! i"; cases c)
      (auto simp: contextWorker_def worker_exit_def constructors_exactly_one
        split: if_splits option.splits prod.splits)
next
  case Expire
  with assms show ?thesis by (auto split: if_splits)
next
  case (Disp c)
  with assms show ?thesis by (auto split: if_splits sender_pc.splits choice.splits)
next
  case (Coll c)
  with assms show ?thesis
    by (auto split: if_splits collector_pc.splits choice.splits option.splits prod.splits)
next
  case Coord
  with assms show ?thesis by (auto split: if_splits main_pc.splits)
qed

lemma reachable_emitted: "reachable s \<Longrightarrow> list_all exactly_one (emitted s)"
proof (induction rule: reachable.induct)
  case reach_init
  show ?case by (simp add: workerPoolWithContext_init_def pool_init_def)
next
  case (reach_step s e s')
  then show ?case by (auto intro: emitted_step)
qed

section \<open>Invariants of the finite pools\<close>

lemma suffix_last: "suffix xs ys \<Longrightarrow> xs \<noteq> [] \<Longrightarrow> last ys = last xs"
  by (auto simp: suffix_def)

lemma pool_result_not_cancellation: "\<not> is_cancellation (pool_result k w job r)"
proof (cases k)
  case Basic
  then show ?thesis by (simp add: is_cancellation_def pool_result_def basicWorker_result_def)
next
  case ErrorProne
  show ?thesis
  proof (cases "r < 3")
    case True
    have "\<not> suffix '': context cancelled'' (''worker '' @ itoa w @ '': random failure'')"
    proof
      assume "suffix '': context cancelled'' (''worker '' @ itoa w @ '': random failure'')"
      from suffix_last [OF this] show False by simp
    qed
    with True ErrorProne show ?thesis
      by (simp add: is_cancellation_def pool_result_def errorProneWorker_result_def)
  next
    case False
    with ErrorProne show ?thesis
      by (simp add: is_cancellation_def pool_result_def errorProneWorker_result_def)
  qed
qed

lemma cancelled_count_snoc:
  "cancelled_count (xs @ [x]) = cancelled_count xs + (if is_cancellation x then 1 else 0)"
  by (simp add: cancelled_count_def)

lemma cancelled_count_Cons:
  "cancelled_count (x # xs) = (if is_cancellation x then 1 else 0) + cancelled_count xs"
  by (simp add: cancelled_count_def)

text \<open>The steps of a finite pool, case by case.\<close>

lemma fmain_step_cases:
  assumes "fmain_step cfg s = Some s'"
  obtains
    (send) j where "fmain s = FSend j" "j \<le> njobs cfg" "can_send (fjobs s)"
      "s' = s\<lparr>fjobs := send (pool_job (kind cfg) j) (fjobs s), fmain := FSend (j + 1),
               fsent := fsent s @ [pool_job (kind cfg) j]\<rparr>"
  | (close) j where "fmain s = FSend j" "\<not> j \<le> njobs cfg"
      "s' = s\<lparr>fjobs := close_chan (fjobs s), fmain := FCollect 1\<rparr>"
  | (collect) r res q where "fmain s = FCollect r" "r \<le> njobs cfg"
      "recv (fresults s) = Some (res, q)"
      "s' = (let x = (case res of None \<Rightarrow> zero_result | Some x \<Rightarrow> x);
                 t = s\<lparr>fresults := q, fmain := FCollect (r + 1), fcollected := fcollected s @ [x]\<rparr>
             in if Error x \<noteq> None then t\<lparr>errorCount := errorCount s + 1\<rparr>
                else t\<lparr>successCount := successCount s + 1\<rparr>)"
  | (finish) r where "fmain s = FCollect r" "\<not> r \<le> njobs cfg" "s' = s\<lparr>fmain := FDone\<rparr>"
  using assms
  by (cases "fmain s") (auto simp: fmain_step_def Let_def split: if_splits option.splits)

lemma fworker_step_cases:
  assumes "fworker_step cfg i r s = Some s'"
  obtains
    (take) job q where "i < length (fworkers s)" "fworkers s ! i = FRecv"
      "buf (fjobs s) = job # q"
      "s' = s\<lparr>fjobs := (fjobs s)\<lparr>buf := q\<rparr>, fworkers := (fworkers s)[i := FWork job]\<rparr>"
  | (exit) "i < length (fworkers s)" "fworkers s ! i = FRecv" "buf (fjobs s) = []"
      "closed (fjobs s)" "s' = s\<lparr>fworkers := (fworkers s)[i := FWDone]\<rparr>"
  | (work) job where "i < length (fworkers s)" "fworkers s ! i = FWork job"
      "s' = s\<lparr>fworkers := (fworkers s)[i := FSendRes (pool_result (kind cfg) (int i + 1) job r)]\<rparr>"
  | (answer) res where "i < length (fworkers s)" "fworkers s ! i = FSendRes res"
      "can_send (fresults s)"
      "s' = s\<lparr>fresults := send res (fresults s), femitted := femitted s @ [res],
               fworkers := (fworkers s)[i := FRecv]\<rparr>"
  using assms
  by (cases "fworkers s ! i")
    (auto simp: fworker_step_def recv_def split: if_splits list.splits)

lemma sum_list_replicate_empty: "sum_list (replicate n ({#} :: 'a multiset)) = {#}"
  by (induction n) simp_all

lemma finv_init: "finv cfg (finit cfg)"
  by (simp add: finv_def shape_ok_def jobs_accounted_def tally_ok_def no_cancellations_def
      results_accounted_def main_ok_def done_ok_def finit_def make_chan_def list_all_length
      cancelled_count_def sum_list_replicate_empty)

lemma shape_ok_step:
  assumes "shape_ok cfg s" "ffire cfg e s = Some s'"
  shows "shape_ok cfg s'"
proof (cases e)
  case FMain
  with assms(2) have "fmain_step cfg s = Some s'" by simp
  then show ?thesis using assms(1)
    by (cases rule: fmain_step_cases)
      (auto simp: shape_ok_def send_def close_chan_def recv_def Let_def split: list.splits if_splits)
next
  case (FWorker i r)
  with assms(2) have "fworker_step cfg i r s = Some s'" by simp
  then show ?thesis using assms(1)
    by (cases rule: fworker_step_cases) (auto simp: shape_ok_def send_def)
qed

lemma jobs_accounted_step:
  assumes "jobs_accounted s" "shape_ok cfg s" "ffire cfg e s = Some s'"
  shows "jobs_accounted s'"
proof (cases e)
  case FMain
  with assms(3) have "fmain_step cfg s = Some s'" by simp
  then show ?thesis using assms(1,2)
    by (cases rule: fmain_step_cases)
      (auto simp: jobs_accounted_def shape_ok_def send_def close_chan_def recv_def Let_def
        split: list.splits if_splits)
next
  case (FWorker i r)
  with assms(3) have st: "fworker_step cfg i r s = Some s'" by simp
  then show ?thesis
  proof (cases rule: fworker_step_cases)
    case (take job q)
    with assms(1) sum_list_map_update [OF take(1), of fholds "FWork job"] show ?thesis
      by (simp add: jobs_accounted_def)
  next
    case exit
    with assms(1) sum_list_map_update [OF exit(1), of fholds FWDone] show ?thesis
      by (simp add: jobs_accounted_def)
  next
    case (work job)
    with assms(1) sum_list_map_update [OF work(1), of fholds "FSendRes (pool_result (kind cfg) (int i + 1) job r)"]
    show ?thesis by (simp add: jobs_accounted_def)
  next
    case (answer res)
    with assms(1) sum_list_map_update [OF answer(1), of fholds FRecv] show ?thesis
      by (simp add: jobs_accounted_def send_def)
  qed
qed

lemma tally_ok_step:
  assumes "tally_ok s" "ffire cfg e s = Some s'"
  shows "tally_ok s'"
proof (cases e)
  case FMain
  with assms(2) have "fmain_step cfg s = Some s'" by simp
  then show ?thesis using assms(1)
    by (cases rule: fmain_step_cases) (auto simp: tally_ok_def Let_def)
next
  case (FWorker i r)
  with assms(2) have "fworker_step cfg i r s = Some s'" by simp
  then show ?thesis using assms(1)
    by (cases rule: fworker_step_cases) (auto simp: tally_ok_def)
qed

lemma no_cancellations_step:
  assumes "no_cancellations s" "shape_ok cfg s" "ffire cfg e s = Some s'"
  shows "no_cancellations s'"
proof (cases e)
  case FMain
  with assms(3) have "fmain_step cfg s = Some s'" by simp
  then show ?thesis using assms(1,2)
    by (cases rule: fmain_step_cases)
      (auto simp: no_cancellations_def shape_ok_def recv_def Let_def send_def close_chan_def
        cancelled_count_snoc cancelled_count_Cons split: list.splits if_splits)
next
  case (FWorker i r)
  with assms(3) have "fworker_step cfg i r s = Some s'" by simp
  then show ?thesis
  proof (cases rule: fworker_step_cases)
    case (take job q)
    with assms(1) show ?thesis by (auto simp: no_cancellations_def intro: list_all_update)
  next
    case exit
    with assms(1) show ?thesis by (auto simp: no_cancellations_def intro: list_all_update)
  next
    case (work job)
    with assms(1) show ?thesis
      by (auto simp: no_cancellations_def pool_result_not_cancellation intro: list_all_update)
  next
    case (answer res)
    from assms(1) have "list_all not_cancelling (fworkers s)" by (simp add: no_cancellations_def)
    from list_all_nth [OF this answer(1)] answer(2) have "\<not> is_cancellation res" by simp
    with answer assms(1) show ?thesis
      by (auto simp: no_cancellations_def send_def cancelled_count_snoc intro: list_all_update)
  qed
qed

lemma main_ok_step:
  assumes "main_ok cfg s" "shape_ok cfg s" "ffire cfg e s = Some s'"
  shows "main_ok cfg s'"
proof (cases e)
  case FMain
  with assms(3) have "fmain_step cfg s = Some s'" by simp
  then show ?thesis using assms(1,2)
    by (cases rule: fmain_step_cases)
      (auto simp: main_ok_def shape_ok_def recv_def Let_def send_def close_chan_def
        split: list.splits if_splits)
next
  case (FWorker i r)
  with assms(3) have "fworker_step cfg i r s = Some s'" by simp
  then show ?thesis using assms(1)
    by (cases rule: fworker_step_cases; cases "fmain s") (auto simp: main_ok_def send_def)
qed

lemma done_ok_step:
  assumes "done_ok s" "main_ok cfg s" "ffire cfg e s = Some s'"
  shows "done_ok s'"
proof (cases e)
  case FMain
  with assms(3) have "fmain_step cfg s = Some s'" by simp
  then show ?thesis using assms(1,2)
    by (cases rule: fmain_step_cases)
      (auto simp: done_ok_def main_ok_def Let_def send_def close_chan_def)
next
  case (FWorker i r)
  with assms(3) have "fworker_step cfg i r s = Some s'" by simp
  then show ?thesis using assms(1)
    by (cases rule: fworker_step_cases) (auto simp: done_ok_def dest!: in_set_update)
qed

lemma pool_result_job: "Job (pool_result k w job r) = job"
  by (cases k)
    (simp_all add: pool_result_def basicWorker_result_def errorProneWorker_result_def)

lemma results_accounted_step:
  assumes "results_accounted s" "shape_ok cfg s" "ffire cfg e s = Some s'"
  shows "results_accounted s'"
proof (cases e)
  case FMain
  with assms(3) have "fmain_step cfg s = Some s'" by simp
  then show ?thesis using assms(1,2)
    by (cases rule: fmain_step_cases)
      (auto simp: results_accounted_def shape_ok_def send_def close_chan_def recv_def Let_def
        split: list.splits if_splits)
next
  case (FWorker i r)
  with assms(3) have st: "fworker_step cfg i r s = Some s'" by simp
  then show ?thesis
  proof (cases rule: fworker_step_cases)
    case (take job q)
    with assms(1) sum_list_map_update [OF take(1), of fholding "FWork job"] show ?thesis
      by (simp add: results_accounted_def)
  next
    case exit
    with assms(1) sum_list_map_update [OF exit(1), of fholding FWDone] show ?thesis
      by (simp add: results_accounted_def)
  next
    case (work job)
    with assms(1) sum_list_map_update [OF work(1), of fholding
        "FSendRes (pool_result (kind cfg) (int i + 1) job r)"]
    show ?thesis by (simp add: results_accounted_def pool_result_job)
  next
    case (answer res)
    with assms(1) sum_list_map_update [OF answer(1), of fholding FRecv] show ?thesis
      by (simp add: results_accounted_def send_def)
  qed
qed

lemma finv_step: "finv cfg s \<Longrightarrow> ffire cfg e s = Some s' \<Longrightarrow> finv cfg s'"
  unfolding finv_def
  by (blast intro: shape_ok_step jobs_accounted_step results_accounted_step tally_ok_step
      no_cancellations_step main_ok_step done_ok_step)

lemma freachable_finv: "freachable cfg s \<Longrightarrow> finv cfg s"
  by (induction rule: freachable.induct) (auto intro: finv_init finv_step)

lemma fresults_ok_step:
  assumes "fresults_ok s" "ffire cfg e s = Some s'"
  shows "fresults_ok s'"
proof (cases e)
  case FMain
  with assms(2) have "fmain_step cfg s = Some s'" by simp
  then show ?thesis using assms(1)
    by (cases rule: fmain_step_cases) (auto simp: fresults_ok_def Let_def)
next
  case (FWorker i r)
  with assms(2) have "fworker_step cfg i r s = Some s'" by simp
  then show ?thesis
  proof (cases rule: fworker_step_cases)
    case (take job q)
    with assms(1) show ?thesis by (auto simp: fresults_ok_def intro: list_all_update)
  next
    case exit
    with assms(1) show ?thesis by (auto simp: fresults_ok_def intro: list_all_update)
  next
    case (work job)
    with assms(1) show ?thesis
      by (auto simp: fresults_ok_def constructors_exactly_one intro: list_all_update)
  next
    case (answer res)
    from assms(1) have "list_all pending_ok (fworkers s)" by (simp add: fresults_ok_def)
    from list_all_nth [OF this answer(1)] answer(2) have "exactly_one res" by simp
    with answer assms(1) show ?thesis by (auto simp: fresults_ok_def intro: list_all_update)
  qed
qed

lemma freachable_results_ok: "freachable cfg s \<Longrightarrow> fresults_ok s"
proof (induction rule: freachable.induct)
  case freach_init
  show ?case by (simp add: fresults_ok_def finit_def list_all_length)
next
  case (freach_step s e s')
  then show ?case by (auto intro: fresults_ok_step)
qed

lemma steps_left_decreases:
  assumes "ffire cfg e s = Some s'"
  shows "steps_left cfg s' < steps_left cfg s"
proof (cases e)
  case FMain
  with assms have "fmain_step cfg s = Some s'" by simp
  then show ?thesis
    by (cases rule: fmain_step_cases)
      (auto simp: steps_left_def send_def close_chan_def recv_def Let_def
        split: list.splits if_splits)
next
  case (FWorker i r)
  with assms have "fworker_step cfg i r s = Some s'" by simp
  then show ?thesis
  proof (cases rule: fworker_step_cases)
    case (take job q)
    with sum_list_map_update [OF take(1), of fworker_weight "FWork job"] show ?thesis
      by (simp add: steps_left_def)
  next
    case exit
    with sum_list_map_update [OF exit(1), of fworker_weight FWDone] show ?thesis
      by (simp add: steps_left_def)
  next
    case (work job)
    with sum_list_map_update [OF work(1), of fworker_weight
        "FSendRes (pool_result (kind cfg) (int i + 1) job r)"]
    show ?thesis by (simp add: steps_left_def)
  next
    case (answer res)
    with sum_list_map_update [OF answer(1), of fworker_weight FRecv] show ?thesis
      by (simp add: steps_left_def send_def)
  qed
qed

lemma holder_exists:
  "0 < sum_list (map fholds ws) \<Longrightarrow> \<exists>i < length ws. 0 < fholds (ws ! i)"
proof (induction ws)
  case Nil
  then show ?case by simp
next
  case (Cons w ws)
  show ?case
  proof (cases "0 < fholds w")
    case True
    then have "0 < length (w # ws) \<and> 0 < fholds ((w # ws) ! 0)" by simp
    then show ?thesis by blast
  next
    case False
    with Cons.prems have "0 < sum_list (map fholds ws)" by simp
    from Cons.IH [OF this] obtain i where "i < length ws" "0 < fholds (ws ! i)" by blast
    then have "Suc i < length (w # ws) \<and> 0 < fholds ((w # ws) ! Suc i)" by simp
    then show ?thesis by blast
  qed
qed

lemma fenabledI: "i < length (fworkers s) \<Longrightarrow> ffire cfg (FWorker i 0) s \<noteq> None \<Longrightarrow> fenabled cfg s \<noteq> []"
  by (auto simp: fenabled_def filter_empty_conv)

lemma fenabled_main: "ffire cfg FMain s \<noteq> None \<Longrightarrow> fenabled cfg s \<noteq> []"
  by (auto simp: fenabled_def filter_empty_conv)

lemma worker_enabled:
  assumes "i < length (fworkers s)"
  shows "fworkers s ! i = FWork job \<Longrightarrow> ffire cfg (FWorker i 0) s \<noteq> None"
    and "fworkers s ! i = FSendRes res \<Longrightarrow> can_send (fresults s) \<Longrightarrow> ffire cfg (FWorker i 0) s \<noteq> None"
    and "fworkers s ! i = FRecv \<Longrightarrow> buf (fjobs s) \<noteq> [] \<Longrightarrow> ffire cfg (FWorker i 0) s \<noteq> None"
  using assms by (auto simp: fworker_step_def recv_def split: list.splits)

lemma finv_progress:
  assumes inv: "finv cfg s"
    and cfg: "njobs cfg \<le> jobs_cap cfg" "0 < results_cap cfg" "0 < nworkers cfg"
    and run: "fmain s \<noteq> FDone"
  shows "fenabled cfg s \<noteq> []"
proof -
  from inv have sh: "shape_ok cfg s" and acc: "jobs_accounted s" and mo: "main_ok cfg s"
    and dn: "done_ok s"
    by (simp_all add: finv_def)
  show ?thesis
  proof (cases "fmain s")
  case (FSend j)
  show ?thesis
  proof (cases "j \<le> njobs cfg")
    case True
    from mo FSend have "length (fsent s) = j - 1" "1 \<le> j" by (simp_all add: main_ok_def)
    moreover from sh have "cap (fjobs s) = jobs_cap cfg" by (simp add: shape_ok_def)
    moreover from acc have "length (buf (fjobs s)) \<le> length (fsent s)"
      by (simp add: jobs_accounted_def)
    ultimately have "length (buf (fjobs s)) < cap (fjobs s)" using True cfg(1) by linarith
    then have "can_send (fjobs s)" by (simp add: can_send_def)
    with FSend True show ?thesis by (intro fenabled_main) (simp add: fmain_step_def)
  next
    case False
    with FSend show ?thesis by (intro fenabled_main) (simp add: fmain_step_def)
  qed
next
  case (FCollect r)
  show ?thesis
  proof (cases "r \<le> njobs cfg \<and> buf (fresults s) = []")
    case False
    with FCollect show ?thesis
      by (intro fenabled_main) (auto simp: fmain_step_def recv_def Let_def split: list.splits)
  next
    case True
    from mo FCollect have len: "length (fsent s) = njobs cfg" "length (fcollected s) = r - 1" "1 \<le> r"
      by (simp_all add: main_ok_def)
    from acc have acc: "length (fsent s) = length (buf (fjobs s)) + sum_list (map fholds (fworkers s))
          + length (buf (fresults s)) + length (fcollected s)"
      by (simp add: jobs_accounted_def)
    from sh have shape: "length (fworkers s) = nworkers cfg" "cap (fresults s) = results_cap cfg"
      by (simp_all add: shape_ok_def)
    from dn have dn: "FWDone \<in> set (fworkers s) \<longrightarrow> buf (fjobs s) = []"
      by (simp add: done_ok_def)
    from True shape cfg(2) have room: "can_send (fresults s)" by (simp add: can_send_def)
    show ?thesis
    proof (cases "0 < sum_list (map fholds (fworkers s))")
      case True
      from holder_exists [OF this] obtain i where i: "i < length (fworkers s)"
        and h: "0 < fholds (fworkers s ! i)" by blast
      from h worker_enabled [OF i] room have "ffire cfg (FWorker i 0) s \<noteq> None"
        by (cases "fworkers s ! i") simp_all
      from fenabledI [OF i this] show ?thesis .
    next
      case False
      then have z: "sum_list (map fholds (fworkers s)) = 0" by linarith
      from True have "r \<le> njobs cfg" "length (buf (fresults s)) = 0" by simp_all
      with len acc z have "0 < length (buf (fjobs s))" by linarith
      then have q: "buf (fjobs s) \<noteq> []" by simp
      from shape cfg(3) have i: "0 < length (fworkers s)" by simp
      then have "fworkers s ! 0 \<in> set (fworkers s)" by simp
      with dn q have "fworkers s ! 0 \<noteq> FWDone" by metis
      with worker_enabled [OF i] room q have "ffire cfg (FWorker 0 0) s \<noteq> None"
        by (cases "fworkers s ! 0") simp_all
      from fenabledI [OF i this] show ?thesis .
    qed
  qed
next
  case FDone
  with run show ?thesis by simp
qed
qed

lemma fexec_freachable: "freachable cfg s \<Longrightarrow> fexec cfg es s = Some s' \<Longrightarrow> freachable cfg s'"
proof (induction es arbitrary: s)
  case Nil
  then show ?case by simp
next
  case (Cons e es)
  then show ?case by (auto split: option.splits intro: freach_step)
qed

lemma nothing_held:
  "sum_list (map fholds ws) = 0 \<Longrightarrow> sum_list (map fholding ws) = {#}"
proof (induction ws)
  case Nil
  then show ?case by simp
next
  case (Cons w ws)
  then show ?case by (cases w) simp_all
qed

lemma fits_code: "fits basicWorkerPool_cfg" "fits workerPoolWithErrors_cfg"
  by (simp_all add: fits_def basicWorkerPool_cfg_def workerPoolWithErrors_cfg_def)

lemma finv_finished:
  assumes inv: "finv cfg s" and d: "fmain s = FDone"
  shows "length (fsent s) = njobs cfg \<and> successCount s + errorCount s = njobs cfg
       \<and> cancelled_count (fcollected s) = 0 \<and> femitted s = fcollected s
       \<and> mset (map Job (fcollected s)) = mset (fsent s)"
proof -
  from inv d have n: "length (fsent s) = njobs cfg" "length (fcollected s) = njobs cfg"
    by (simp_all add: finv_def main_ok_def)
  from inv have "length (fsent s) = length (buf (fjobs s)) + sum_list (map fholds (fworkers s))
        + length (buf (fresults s)) + length (fcollected s)"
    by (simp add: finv_def jobs_accounted_def)
  with n have e: "buf (fjobs s) = []" "buf (fresults s) = []"
    and h: "sum_list (map fholds (fworkers s)) = 0"
    by simp_all
  from inv have ra: "femitted s = fcollected s @ buf (fresults s)"
    "mset (fsent s) = mset (buf (fjobs s)) + sum_list (map fholding (fworkers s))
        + mset (map Job (femitted s))"
    by (simp_all add: finv_def results_accounted_def)
  from inv have t: "successCount s = length (filter (\<lambda>r. Error r = None) (fcollected s))"
    "errorCount s = length (filter (\<lambda>r. Error r \<noteq> None) (fcollected s))"
    by (simp_all add: finv_def tally_ok_def)
  have "successCount s + errorCount s = length (fcollected s)"
    unfolding t using sum_length_filter_compl [of "\<lambda>r. Error r = None" "fcollected s"] by simp
  moreover from inv have "cancelled_count (fcollected s) = 0"
    by (simp add: finv_def no_cancellations_def)
  moreover from ra e have "femitted s = fcollected s" by simp
  moreover from ra e nothing_held [OF h] have "mset (map Job (fcollected s)) = mset (fsent s)"
    by simp
  ultimately show ?thesis using n by simp
qed

section \<open>Invariants of the rate-limited pool\<close>

lemma rexec_rreachable: "rreachable s \<Longrightarrow> rexec es s = Some s' \<Longrightarrow> rreachable s'"
proof (induction es arbitrary: s)
  case Nil
  then show ?case by simp
next
  case (Cons e es)
  then show ?case by (auto split: option.splits intro: rreach_step)
qed

lemma try_send_length:
  "length (buf c) \<le> cap c \<Longrightarrow> length (buf (try_send x c)) \<le> cap c"
  "length (buf (try_send x c)) = length (buf c) + (if can_send c then 1 else 0)"
  "cap (try_send x c) = cap c" "closed (try_send x c) = closed c"
  by (simp_all add: try_send_def can_send_def send_def)

lemma try_send_full: "length (buf c) = cap c \<Longrightarrow> try_send x c = c"
  by (simp add: try_send_def can_send_def)

lemma rateLimitedWorker_cases:
  assumes "rateLimitedWorker i s = Some s'"
  obtains
    (take) job q where "i < length (rworkers s)" "rworkers s ! i = RRecv"
      "buf (rjobs s) = job # q"
      "s' = s\<lparr>rjobs := (rjobs s)\<lparr>buf := q\<rparr>, rworkers := (rworkers s)[i := RToken job]\<rparr>"
  | (exit) "i < length (rworkers s)" "rworkers s ! i = RRecv" "buf (rjobs s) = []"
      "closed (rjobs s)" "s' = s\<lparr>rworkers := (rworkers s)[i := RWDone]\<rparr>"
  | (permit) job v q where "i < length (rworkers s)" "rworkers s ! i = RToken job"
      "recv (limiter s) = Some (v, q)"
      "s' = s\<lparr>limiter := q, started := started s @ [job],
               rworkers := (rworkers s)[i := RWork job]\<rparr>"
  | (work) job where "i < length (rworkers s)" "rworkers s ! i = RWork job"
      "s' = s\<lparr>rworkers := (rworkers s)[i := RSendRes job]\<rparr>"
  | (answer) job where "i < length (rworkers s)" "rworkers s ! i = RSendRes job"
      "can_send (rresults s)"
      "s' = s\<lparr>rresults := send (rateLimitedWorker_result (int i + 1) job) (rresults s),
               remitted := remitted s @ [rateLimitedWorker_result (int i + 1) job],
               rworkers := (rworkers s)[i := RRecv]\<rparr>"
  using assms
  by (cases "rworkers s ! i")
    (auto simp: rateLimitedWorker_def recv_def split: if_splits list.splits option.splits)

lemma rateLimitedWorkerPool_limiter:
  assumes "rateLimitedWorkerPool s = Some s'"
  shows "limiter s' = limiter s \<and> refill s' = refill s \<and> ticks s' = ticks s
       \<and> refilled s' = refilled s \<and> started s' = started s \<and> remitted s' = remitted s
       \<and> rworkers s' = rworkers s
       \<and> (buf (rresults s) = [] \<longrightarrow> buf (rresults s') = [])"
  using assms
  by (cases "rmain s") (auto simp: rateLimitedWorkerPool_def recv_def split: if_splits list.splits)

lemma limiter_bounded_init: "limiter_bounded rateLimitedWorkerPool_init"
  by (simp add: limiter_bounded_def rateLimitedWorkerPool_init_def make_chan_def)

lemma limiter_bounded_step:
  assumes "limiter_bounded s" "rfire e s = Some s'"
  shows "limiter_bounded s'"
proof (cases e)
  case RRefill
  with assms show ?thesis
    by (cases "refill s")
      (auto simp: limiter_bounded_def refill_step_def try_send_def can_send_def send_def
        split: if_splits)
next
  case (RWorker i)
  with assms(2) have "rateLimitedWorker i s = Some s'" by simp
  then show ?thesis using assms(1)
    by (cases rule: rateLimitedWorker_cases)
      (auto simp: limiter_bounded_def recv_def split: list.splits if_splits)
next
  case RMain
  with assms(2) have "rateLimitedWorkerPool s = Some s'" by simp
  from rateLimitedWorkerPool_limiter [OF this] assms(1) show ?thesis by (simp add: limiter_bounded_def)
qed

lemma rreachable_limiter_bounded: "rreachable s \<Longrightarrow> limiter_bounded s"
  by (induction rule: rreachable.induct) (auto intro: limiter_bounded_init limiter_bounded_step)

lemma before_first_tick_init: "before_first_tick rateLimitedWorkerPool_init"
  by (simp add: before_first_tick_def rateLimitedWorkerPool_init_def make_chan_def list_all_length)

lemma before_first_tick_step:
  assumes "before_first_tick s" "rfire e s = Some s'"
  shows "before_first_tick s'"
proof (cases e)
  case RRefill
  with assms show ?thesis
    by (cases "refill s") (auto simp: before_first_tick_def refill_step_def)
next
  case (RWorker i)
  with assms(2) have "rateLimitedWorker i s = Some s'" by simp
  then show ?thesis
  proof (cases rule: rateLimitedWorker_cases)
    case (take job q)
    with assms(1) show ?thesis by (auto simp: before_first_tick_def intro: list_all_update)
  next
    case exit
    with assms(1) show ?thesis by (auto simp: before_first_tick_def intro: list_all_update)
  next
    case (permit job v q)
    with assms(1) show ?thesis by (auto simp: before_first_tick_def recv_def)
  next
    case (work job)
    show ?thesis
    proof (cases "ticks s = 0")
      case True
      with assms(1) have "list_all (\<lambda>w. \<not> processing w) (rworkers s)"
        by (simp add: before_first_tick_def)
      from list_all_nth [OF this work(1)] work(2) show ?thesis by simp
    next
      case False
      with work show ?thesis by (simp add: before_first_tick_def)
    qed
  next
    case (answer job)
    show ?thesis
    proof (cases "ticks s = 0")
      case True
      with assms(1) have "list_all (\<lambda>w. \<not> processing w) (rworkers s)"
        by (simp add: before_first_tick_def)
      from list_all_nth [OF this answer(1)] answer(2) show ?thesis by simp
    next
      case False
      with answer show ?thesis by (simp add: before_first_tick_def)
    qed
  qed
next
  case RMain
  with assms(2) have "rateLimitedWorkerPool s = Some s'" by simp
  from rateLimitedWorkerPool_limiter [OF this] assms(1) show ?thesis
    by (auto simp: before_first_tick_def)
qed

lemma rreachable_before_first_tick: "rreachable s \<Longrightarrow> before_first_tick s"
  by (induction rule: rreachable.induct)
    (auto intro: before_first_tick_init before_first_tick_step)

lemma remitted_step:
  assumes "list_all exactly_one (remitted s)" "rfire e s = Some s'"
  shows "list_all exactly_one (remitted s')"
proof (cases e)
  case RRefill
  with assms show ?thesis by (cases "refill s") (auto simp: refill_step_def)
next
  case (RWorker i)
  with assms(2) have "rateLimitedWorker i s = Some s'" by simp
  then show ?thesis using assms(1)
    by (cases rule: rateLimitedWorker_cases) (auto simp: constructors_exactly_one)
next
  case RMain
  with assms(2) have "rateLimitedWorkerPool s = Some s'" by simp
  from rateLimitedWorkerPool_limiter [OF this] assms(1) show ?thesis by simp
qed

lemma rreachable_remitted: "rreachable s \<Longrightarrow> list_all exactly_one (remitted s)"
proof (induction rule: rreachable.induct)
  case rreach_init
  show ?case by (simp add: rateLimitedWorkerPool_init_def)
next
  case (rreach_step s e s')
  then show ?case by (auto intro: remitted_step)
qed

section \<open>The claims\<close>

text \<open>
  C1, as the code has it. In the pool with a context the three waits written as a
  \<open>select\<close> with the case \<open><-ctx.Done()\<close> (the sender offering a job, a worker waiting
  for a job, the collector waiting for a result) are interruptible: once the context is
  cancelled, the goroutine at that point has an enabled step, whatever the queues hold,
  and that step ends it.
\<close>

theorem select_waits_interruptible:
  assumes "done_ctx s"
  shows "(disp s = SSelect j \<longrightarrow>
            fire (Disp Stop) s = Some (s\<lparr>jobs := close_chan (jobs s), disp := SDone\<rparr>))
       \<and> (i < length (workers s) \<and> workers s ! i = WSelect \<longrightarrow>
            fire (Work i Stop) s = Some (worker_exit i s))
       \<and> (coll s = CSelect \<longrightarrow> fire (Coll Stop) s = Some (s\<lparr>coll := CDone\<rparr>))"
  using assms by (simp add: contextWorker_def)

theorem select_waits_interruptible_witness:
  "(let s = the (exec [Expire] workerPoolWithContext_init) in
      done_ctx s \<and> disp s = SSelect 1 \<and> workers s ! 1 = WSelect \<and> coll s = CSelect
      \<and> fire (Disp Stop) s = Some (s\<lparr>jobs := close_chan (jobs s), disp := SDone\<rparr>)
      \<and> fire (Work 1 Stop) s = Some (worker_exit 1 s)
      \<and> fire (Coll Stop) s = Some (s\<lparr>coll := CDone\<rparr>))"
proof -
  define s where "s = the (exec [Expire] workerPoolWithContext_init)"
  have h: "done_ctx s" "disp s = SSelect 1" "1 < length (workers s)" "workers s ! 1 = WSelect"
    "coll s = CSelect"
    unfolding s_def by code_simp+
  from select_waits_interruptible [OF h(1), of 1 1] h show ?thesis
    unfolding Let_def s_def [symmetric] by simp
qed

text \<open>
  C1, as the specification has it, fails for the send of a result, which is a plain
  send: after \<open>full_schedule\<close> the context is cancelled, the result channel is full, the
  collector has returned, both workers stand at their send, and no event is enabled any
  more, so \<open>wg.Wait()\<close> does not return. It fails for the wait for a permit as well:
  the rate-limited pool has no context, and after \<open>early_schedule\<close> worker 1 waits for a
  permit with only the tick of the refill and the sends of the function enabled.
\<close>

theorem result_send_not_interruptible_counterexample:
  "(case exec full_schedule workerPoolWithContext_init of
      None \<Rightarrow> False
    | Some s \<Rightarrow> done_ctx s \<and> workers s = [WSendOk (urgent_task 21), WSendOk (urgent_task 22)]
        \<and> length (buf (results s)) = 20 \<and> \<not> can_send (results s)
        \<and> disp s = SDone \<and> coll s = CDone \<and> coord s = MWaitWg \<and> enabled s = [])
   \<and> (case rexec early_schedule rateLimitedWorkerPool_init of
        None \<Rightarrow> False
      | Some s \<Rightarrow> rworkers s ! 0 = RToken (rate_job 1) \<and> rfire (RWorker 0) s = None
          \<and> renabled s = [RRefill, RMain])"
  unfolding full_schedule_def early_schedule_def by code_simp

text \<open>
  C2. In both finite pools, and in every pool of their shape whose job channel can hold
  every job, every run ends, and ends with the function returned: as long as the
  function has not returned some event is enabled, and every event lowers \<open>steps_left\<close>.
  When the function has returned it has dispatched \<open>njobs\<close> jobs, its two counters add
  up to \<open>njobs\<close>, no result is a cancellation, and the results received are the results
  the workers sent, one for every job dispatched.
\<close>

theorem finite_pool_statistics:
  assumes "fits cfg" and "freachable cfg s"
  shows "(fmain s = FDone \<longrightarrow>
            length (fsent s) = njobs cfg
            \<and> successCount s + errorCount s = njobs cfg
            \<and> cancelled_count (fcollected s) = 0
            \<and> femitted s = fcollected s
            \<and> mset (map Job (fcollected s)) = mset (fsent s))
       \<and> (fmain s \<noteq> FDone \<longrightarrow> fenabled cfg s \<noteq> [])
       \<and> (ffire cfg e s = Some s' \<longrightarrow> steps_left cfg s' < steps_left cfg s)"
proof -
  from freachable_finv [OF assms(2)] have inv: "finv cfg s" .
  from assms(1) have c: "njobs cfg \<le> jobs_cap cfg" "0 < results_cap cfg" "0 < nworkers cfg"
    by (simp_all add: fits_def)
  from finv_finished [OF inv] finv_progress [OF inv c] steps_left_decreases [of cfg e s s']
  show ?thesis by blast
qed

theorem finite_pool_statistics_witness:
  "fits workerPoolWithErrors_cfg \<and> fits basicWorkerPool_cfg
   \<and> (let s = the (fexec workerPoolWithErrors_cfg errors_schedule (finit workerPoolWithErrors_cfg))
       in fmain s = FDone \<and> length (fsent s) = 8 \<and> successCount s = 5 \<and> errorCount s = 3
          \<and> successCount s + errorCount s = njobs workerPoolWithErrors_cfg
          \<and> cancelled_count (fcollected s) = 0
          \<and> mset (map Job (fcollected s)) = mset (fsent s))
   \<and> fenabled basicWorkerPool_cfg (finit basicWorkerPool_cfg) \<noteq> []"
proof -
  define s where
    "s = the (fexec workerPoolWithErrors_cfg errors_schedule (finit workerPoolWithErrors_cfg))"
  have f: "fits workerPoolWithErrors_cfg" "fits basicWorkerPool_cfg"
    by (simp_all add: fits_def basicWorkerPool_cfg_def workerPoolWithErrors_cfg_def)
  have "fexec workerPoolWithErrors_cfg errors_schedule (finit workerPoolWithErrors_cfg) \<noteq> None"
    unfolding errors_schedule_def by code_simp
  then have "fexec workerPoolWithErrors_cfg errors_schedule (finit workerPoolWithErrors_cfg) = Some s"
    unfolding s_def by auto
  from fexec_freachable [OF freach_init this] have r: "freachable workerPoolWithErrors_cfg s" .
  have v: "fmain s = FDone" "length (fsent s) = 8" "successCount s = 5" "errorCount s = 3"
    unfolding s_def errors_schedule_def by code_simp+
  have i: "fmain (finit basicWorkerPool_cfg) \<noteq> FDone" by (simp add: finit_def)
  from finite_pool_statistics [OF f(1) r] finite_pool_statistics [OF f(2) freach_init] v i f
  show ?thesis unfolding Let_def s_def [symmetric] by simp
qed

text \<open>
  C3, as the code has it. In the pool with a context, at every moment every job the
  sender has dispatched is in one place: still queued, held by one worker, or answered by
  one result. So the results produced never outnumber the jobs dispatched, and no job is
  answered twice. In a finite pool, which has no cancellation, the same holds, and when
  the function has returned the results produced answer the jobs dispatched one for one.
\<close>

theorem results_never_outnumber_jobs:
  assumes "reachable s" and "freachable cfg t"
  shows "mset (sent s) = mset (buf (jobs s)) + held (workers s) + mset (map Job (emitted s))
       \<and> mset (map Job (emitted s)) \<subseteq># mset (sent s)
       \<and> length (emitted s) \<le> length (sent s)
       \<and> mset (map Job (femitted t)) \<subseteq># mset (fsent t)
       \<and> (fmain t = FDone \<longrightarrow>
            mset (map Job (femitted t)) = mset (fsent t)
            \<and> length (femitted t) = length (fsent t))"
proof -
  from reachable_conserved [OF assms(1)]
  have c: "mset (sent s) = mset (buf (jobs s)) + held (workers s) + mset (map Job (emitted s))"
    by (simp add: conserved_def)
  then have sub: "mset (map Job (emitted s)) \<subseteq># mset (sent s)" by simp
  from size_mset_mono [OF sub] have le: "length (emitted s) \<le> length (sent s)" by simp
  from freachable_finv [OF assms(2)] have inv: "finv cfg t" .
  then have "mset (fsent t) = mset (buf (fjobs t)) + sum_list (map fholding (fworkers t))
        + mset (map Job (femitted t))"
    by (simp add: finv_def results_accounted_def)
  then have fsub: "mset (map Job (femitted t)) \<subseteq># mset (fsent t)" by simp
  have "mset (map Job (femitted t)) = mset (fsent t) \<and> length (femitted t) = length (fsent t)"
    if d: "fmain t = FDone"
  proof -
    from finv_finished [OF inv d]
    have e: "mset (map Job (femitted t)) = mset (fsent t)" by simp
    from arg_cong [OF this, of size] show ?thesis using e by simp
  qed
  with c sub le fsub show ?thesis by blast
qed

theorem results_never_outnumber_jobs_witness:
  "(let s = the (exec drop_schedule workerPoolWithContext_init);
        t = the (fexec workerPoolWithErrors_cfg errors_schedule (finit workerPoolWithErrors_cfg))
    in mset (sent s) = mset (buf (jobs s)) + held (workers s) + mset (map Job (emitted s))
       \<and> length (emitted s) \<le> length (sent s)
       \<and> fmain t = FDone
       \<and> mset (map Job (femitted t)) = mset (fsent t)
       \<and> length (femitted t) = length (fsent t))"
proof -
  define s where "s = the (exec drop_schedule workerPoolWithContext_init)"
  define t where
    "t = the (fexec workerPoolWithErrors_cfg errors_schedule (finit workerPoolWithErrors_cfg))"
  have "exec drop_schedule workerPoolWithContext_init \<noteq> None"
    unfolding drop_schedule_def by code_simp
  then have "exec drop_schedule workerPoolWithContext_init = Some s"
    unfolding s_def by auto
  from exec_reachable [OF reach_init this] have r: "reachable s" .
  have "fexec workerPoolWithErrors_cfg errors_schedule (finit workerPoolWithErrors_cfg) \<noteq> None"
    unfolding errors_schedule_def by code_simp
  then have "fexec workerPoolWithErrors_cfg errors_schedule (finit workerPoolWithErrors_cfg) = Some t"
    unfolding t_def by auto
  from fexec_freachable [OF freach_init this] have f: "freachable workerPoolWithErrors_cfg t" .
  have d: "fmain t = FDone" unfolding t_def errors_schedule_def by code_simp
  from results_never_outnumber_jobs [OF r f] d show ?thesis
    unfolding Let_def s_def [symmetric] t_def [symmetric] by simp
qed

text \<open>
  C3, as the specification has it, fails: after \<open>drop_schedule\<close> one job has been
  dispatched, every goroutine has returned, and no result has been produced; the job is
  still in the closed channel.
\<close>

theorem queued_job_dropped_counterexample:
  "(case exec drop_schedule workerPoolWithContext_init of
      None \<Rightarrow> False
    | Some s \<Rightarrow> sent s = [urgent_task 1] \<and> emitted s = [] \<and> buf (jobs s) = [urgent_task 1]
        \<and> workers s = [WDone, WDone] \<and> disp s = SDone \<and> coll s = CDone \<and> coord s = MDone
        \<and> enabled s = [])"
  unfolding drop_schedule_def by code_simp



text \<open>
  C5. A worker at its \<open>select\<close> returns when it receives from the closed and empty job
  channel, and returns when the case \<open><-ctx.Done()\<close> fires; when the context is
  cancelled and no job is available that case is the only one enabled. Returning leaves
  both channels and the results produced as they were.
\<close>

theorem worker_select_exits:
  assumes "i < length (workers s)" and "workers s ! i = WSelect"
  shows "(buf (jobs s) = [] \<and> closed (jobs s) \<longrightarrow> fire (Work i Comm) s = Some (worker_exit i s))
       \<and> (done_ctx s \<longrightarrow> fire (Work i Stop) s = Some (worker_exit i s))
       \<and> (done_ctx s \<and> buf (jobs s) = [] \<and> \<not> closed (jobs s) \<longrightarrow> fire (Work i Comm) s = None)
       \<and> workers (worker_exit i s) ! i = WDone
       \<and> jobs (worker_exit i s) = jobs s
       \<and> results (worker_exit i s) = results s
       \<and> emitted (worker_exit i s) = emitted s
       \<and> fire (Work i c) (worker_exit i s) = None"
  using assms
  by (cases c) (simp_all add: contextWorker_def worker_exit_def recv_def)

theorem worker_select_exits_witness:
  "(let s = the (exec [Expire] workerPoolWithContext_init);
        t = the (exec [Expire, Disp Stop] workerPoolWithContext_init)
    in workers s ! 0 = WSelect \<and> done_ctx s \<and> buf (jobs s) = [] \<and> \<not> closed (jobs s)
       \<and> fire (Work 0 Stop) s = Some (worker_exit 0 s) \<and> fire (Work 0 Comm) s = None
       \<and> workers t ! 1 = WSelect \<and> buf (jobs t) = [] \<and> closed (jobs t)
       \<and> fire (Work 1 Comm) t = Some (worker_exit 1 t)
       \<and> emitted (worker_exit 1 t) = emitted t)"
proof -
  define s where "s = the (exec [Expire] workerPoolWithContext_init)"
  define t where "t = the (exec [Expire, Disp Stop] workerPoolWithContext_init)"
  have h: "0 < length (workers s)" "workers s ! 0 = WSelect" "done_ctx s" "buf (jobs s) = []"
    "\<not> closed (jobs s)"
    unfolding s_def by code_simp+
  have k: "1 < length (workers t)" "workers t ! 1 = WSelect" "buf (jobs t) = []" "closed (jobs t)"
    unfolding t_def by code_simp+
  from worker_select_exits [OF h(1,2)] worker_select_exits [OF k(1,2)] h k show ?thesis
    unfolding Let_def s_def [symmetric] t_def [symmetric] by simp
qed

text \<open>
  C6. The limiter never holds more permits than its capacity of 2: a refill is two sends
  that are dropped when the channel is full, so a send at capacity leaves the limiter as
  it is and only moves the refill goroutine on, and the permits put in, with the sends
  still to be made in the current round, never exceed two for every tick.
\<close>

theorem limiter_never_exceeds_capacity:
  assumes "rreachable s"
  shows "length (buf (limiter s)) \<le> cap (limiter s) \<and> cap (limiter s) = 2
       \<and> refilled s + (case refill s of RTick \<Rightarrow> 0 | RFill1 \<Rightarrow> 2 | RFill2 \<Rightarrow> 1) \<le> 2 * ticks s
       \<and> refilled s = length (buf (limiter s)) + length (started s)
       \<and> length (buf (try_send () (limiter s))) \<le> cap (limiter s)
       \<and> (\<not> can_send (limiter s) \<longrightarrow> try_send () (limiter s) = limiter s)
       \<and> (refill s = RFill1 \<and> \<not> can_send (limiter s) \<longrightarrow> rfire RRefill s = Some (s\<lparr>refill := RFill2\<rparr>))
       \<and> (refill s = RFill2 \<and> \<not> can_send (limiter s) \<longrightarrow> rfire RRefill s = Some (s\<lparr>refill := RTick\<rparr>))"
proof -
  from rreachable_limiter_bounded [OF assms]
  have b: "cap (limiter s) = 2" "length (buf (limiter s)) \<le> 2"
    "refilled s + (case refill s of RTick \<Rightarrow> 0 | RFill1 \<Rightarrow> 2 | RFill2 \<Rightarrow> 1) \<le> 2 * ticks s"
    "refilled s = length (buf (limiter s)) + length (started s)"
    by (simp_all add: limiter_bounded_def)
  from b(1,2) have "length (buf (try_send () (limiter s))) \<le> cap (limiter s)"
    by (simp add: try_send_def can_send_def send_def)
  moreover have "\<not> can_send (limiter s) \<longrightarrow> try_send () (limiter s) = limiter s"
    by (simp add: try_send_def)
  moreover have "refill s = RFill1 \<and> \<not> can_send (limiter s) \<longrightarrow> rfire RRefill s = Some (s\<lparr>refill := RFill2\<rparr>)"
    by (simp add: refill_step_def try_send_def)
  moreover have "refill s = RFill2 \<and> \<not> can_send (limiter s) \<longrightarrow> rfire RRefill s = Some (s\<lparr>refill := RTick\<rparr>)"
    by (simp add: refill_step_def try_send_def)
  ultimately show ?thesis using b by simp
qed

theorem limiter_never_exceeds_capacity_witness:
  "(let s = the (rexec refill_schedule rateLimitedWorkerPool_init) in
      ticks s = 2 \<and> refilled s = 2 \<and> buf (limiter s) = [(), ()]
      \<and> length (buf (limiter s)) \<le> cap (limiter s) \<and> refilled s \<le> 2 * ticks s)"
proof -
  define s where "s = the (rexec refill_schedule rateLimitedWorkerPool_init)"
  have "rexec refill_schedule rateLimitedWorkerPool_init \<noteq> None"
    unfolding refill_schedule_def by code_simp
  then have "rexec refill_schedule rateLimitedWorkerPool_init = Some s"
    unfolding s_def by auto
  from rexec_rreachable [OF rreach_init this] have r: "rreachable s" .
  have v: "ticks s = 2" "refilled s = 2" "buf (limiter s) = [(), ()]"
    unfolding s_def refill_schedule_def by code_simp+
  from limiter_never_exceeds_capacity [OF r] v show ?thesis
    unfolding Let_def s_def [symmetric] by simp
qed

text \<open>
  C7, as the code has it. When \<open>wg.Wait()\<close> has returned, both workers have returned and
  take no further step: the wait group counts the workers and nothing else.
\<close>

theorem wait_returns_after_workers:
  assumes "reachable s" and "coord s = MDone"
  shows "workers s = [WDone, WDone] \<and> wg s = 0
       \<and> fire (Work 0 c) s = None \<and> fire (Work 1 c) s = None"
proof -
  from reachable_wg_counts [OF assms(1)] assms(2)
  have "active (workers s) = 0" and l: "length (workers s) = 2" and "wg s = 0"
    by (simp_all add: wg_counts_def)
  then have w: "workers s = [WDone, WDone]" "wg s = 0"
    using active_zero [of "workers s"] by (simp_all add: numeral_2_eq_2)
  then have "fire (Work 0 c) s = None" "fire (Work 1 c) s = None"
    by (cases c; simp add: contextWorker_def)+
  with w show ?thesis by simp
qed

theorem wait_returns_after_workers_witness:
  "(case exec leak_schedule workerPoolWithContext_init of
      None \<Rightarrow> False
    | Some s \<Rightarrow> coord s = MDone \<and> workers s = [WDone, WDone] \<and> wg s = 0)"
proof -
  have "case exec leak_schedule workerPoolWithContext_init of
          None \<Rightarrow> False | Some s \<Rightarrow> coord s = MDone"
    unfolding leak_schedule_def by code_simp
  then obtain s where s: "exec leak_schedule workerPoolWithContext_init = Some s"
    and c: "coord s = MDone"
    by (cases "exec leak_schedule workerPoolWithContext_init") auto
  from exec_reachable [OF reach_init s] have "reachable s" .
  from wait_returns_after_workers [OF this c] s c show ?thesis by simp
qed

text \<open>
  C7, as the specification has it, fails: after \<open>leak_schedule\<close> the call \<open>wg.Wait()\<close> has
  returned while the sender and the collector are still at their \<open>select\<close>, and the
  sender can still put a job on the channel.
\<close>

theorem wait_returns_before_sender_counterexample:
  "(case exec leak_schedule workerPoolWithContext_init of
      None \<Rightarrow> False
    | Some s \<Rightarrow> coord s = MDone \<and> disp s = SSelect 1 \<and> coll s = CSelect
        \<and> enabled s = [Disp Comm, Disp Stop, Coll Stop])"
  unfolding leak_schedule_def by code_simp

text \<open>
  C8. Every result a worker builds carries exactly one of an output and an error: the
  success results an output and no error, the failure and the cancellation results an
  error and no output; and so does every result sent in any reachable state of the three
  pools.
\<close>

theorem result_has_exactly_one:
  "exactly_one (basicWorker_result w job) \<and> has_output (basicWorker_result w job)
   \<and> exactly_one (errorProneWorker_result w job r)
   \<and> has_error (errorProneWorker_result w job r) = (r < 3)
   \<and> exactly_one (contextWorker_cancelled w job) \<and> has_error (contextWorker_cancelled w job)
   \<and> exactly_one (contextWorker_completed w job) \<and> has_output (contextWorker_completed w job)
   \<and> exactly_one (rateLimitedWorker_result w job) \<and> has_output (rateLimitedWorker_result w job)
   \<and> (reachable cs \<longrightarrow> list_all exactly_one (emitted cs))
   \<and> (freachable cfg fs \<longrightarrow> list_all exactly_one (femitted fs))
   \<and> (rreachable rs \<longrightarrow> list_all exactly_one (remitted rs))"
proof -
  have "has_output (basicWorker_result w job)" "has_error (errorProneWorker_result w job r) = (r < 3)"
    "has_error (contextWorker_cancelled w job)" "has_output (contextWorker_completed w job)"
    "has_output (rateLimitedWorker_result w job)"
    by (simp_all add: has_output_def has_error_def basicWorker_result_def
        errorProneWorker_result_def contextWorker_cancelled_def contextWorker_completed_def
        rateLimitedWorker_result_def)
  moreover have "freachable cfg fs \<longrightarrow> list_all exactly_one (femitted fs)"
    using freachable_results_ok [of cfg fs] by (simp add: fresults_ok_def)
  ultimately show ?thesis
    using constructors_exactly_one(1-5) [of w job] reachable_emitted [of cs] rreachable_remitted [of rs]
    by blast
qed

theorem result_has_exactly_one_witness:
  "(let cs = the (exec [Disp Comm, Work 0 Comm, Expire, Work 0 Comm, Work 0 Comm] workerPoolWithContext_init);
        fs = the (fexec workerPoolWithErrors_cfg errors_schedule (finit workerPoolWithErrors_cfg));
        rs = the (rexec answer_schedule rateLimitedWorkerPool_init)
    in length (emitted cs) = 1 \<and> list_all exactly_one (emitted cs)
       \<and> length (femitted fs) = 8 \<and> list_all exactly_one (femitted fs)
       \<and> length (remitted rs) = 1 \<and> list_all exactly_one (remitted rs))"
proof -
  define cs where
    "cs = the (exec [Disp Comm, Work 0 Comm, Expire, Work 0 Comm, Work 0 Comm] workerPoolWithContext_init)"
  define fs where
    "fs = the (fexec workerPoolWithErrors_cfg errors_schedule (finit workerPoolWithErrors_cfg))"
  define rs where "rs = the (rexec answer_schedule rateLimitedWorkerPool_init)"
  have "exec [Disp Comm, Work 0 Comm, Expire, Work 0 Comm, Work 0 Comm] workerPoolWithContext_init \<noteq> None"
    by code_simp
  then have "exec [Disp Comm, Work 0 Comm, Expire, Work 0 Comm, Work 0 Comm] workerPoolWithContext_init = Some cs"
    unfolding cs_def by auto
  from exec_reachable [OF reach_init this] have c: "reachable cs" .
  have "fexec workerPoolWithErrors_cfg errors_schedule (finit workerPoolWithErrors_cfg) \<noteq> None"
    unfolding errors_schedule_def by code_simp
  then have "fexec workerPoolWithErrors_cfg errors_schedule (finit workerPoolWithErrors_cfg) = Some fs"
    unfolding fs_def by auto
  from fexec_freachable [OF freach_init this] have f: "freachable workerPoolWithErrors_cfg fs" .
  have "rexec answer_schedule rateLimitedWorkerPool_init \<noteq> None"
    unfolding answer_schedule_def by code_simp
  then have "rexec answer_schedule rateLimitedWorkerPool_init = Some rs"
    unfolding rs_def by auto
  from rexec_rreachable [OF rreach_init this] have r: "rreachable rs" .
  have v: "length (emitted cs) = 1" "length (femitted fs) = 8" "length (remitted rs) = 1"
    unfolding cs_def fs_def rs_def errors_schedule_def answer_schedule_def by code_simp+
  from result_has_exactly_one [of _ _ _ cs workerPoolWithErrors_cfg fs rs] c f r v show ?thesis
    unfolding Let_def cs_def [symmetric] fs_def [symmetric] rs_def [symmetric] by simp
qed



text \<open>
  C10. The limiter starts empty, and until the refill goroutine has received its first
  tick it stays empty: no worker has taken a permit, none is processing a job, no result
  has been sent, and a worker waiting for a permit has no step.
\<close>

theorem no_permit_before_first_tick:
  assumes "rreachable s" and "ticks s = 0"
  shows "buf (limiter s) = [] \<and> started s = [] \<and> remitted s = []
       \<and> list_all (\<lambda>w. \<not> processing w) (rworkers s)
       \<and> (rworkers s ! i = RToken job \<longrightarrow> rfire (RWorker i) s = None)"
proof -
  from rreachable_before_first_tick [OF assms(1)] assms(2)
  have b: "buf (limiter s) = []" "\<not> closed (limiter s)" "started s = []" "remitted s = []"
    "list_all (\<lambda>w. \<not> processing w) (rworkers s)"
    by (simp_all add: before_first_tick_def)
  from b(1,2) have "rworkers s ! i = RToken job \<longrightarrow> rfire (RWorker i) s = None"
    by (simp add: rateLimitedWorker_def recv_def)
  with b show ?thesis by simp
qed

theorem no_permit_before_first_tick_witness:
  "(let s = the (rexec early_schedule rateLimitedWorkerPool_init) in
      ticks s = 0 \<and> rworkers s ! 0 = RToken (rate_job 1) \<and> buf (limiter s) = []
      \<and> started s = [] \<and> rfire (RWorker 0) s = None)"
proof -
  define s where "s = the (rexec early_schedule rateLimitedWorkerPool_init)"
  have "rexec early_schedule rateLimitedWorkerPool_init \<noteq> None"
    unfolding early_schedule_def by code_simp
  then have "rexec early_schedule rateLimitedWorkerPool_init = Some s"
    unfolding s_def by auto
  from rexec_rreachable [OF rreach_init this] have r: "rreachable s" .
  have v: "ticks s = 0" "rworkers s ! 0 = RToken (rate_job 1)"
    unfolding s_def early_schedule_def by code_simp+
  from no_permit_before_first_tick [OF r v(1), of 0 "rate_job 1"] v show ?thesis
    unfolding Let_def s_def [symmetric] by simp
qed

end
